theory Spec2Isabelle
  imports Main "HOL-Library.Sublist"
begin

section \<open>Questionnaire normalisation and answer validation (website/views.py)\<close>

text \<open>
  A shallow embedding of the functions \<^verbatim>\<open>slugify\<close>, \<^verbatim>\<open>normalize_questions\<close>,
  \<^verbatim>\<open>load_questions\<close>, \<^verbatim>\<open>save_answers\<close>, \<^verbatim>\<open>questionnaire\<close>,
  \<^verbatim>\<open>allowed_file\<close> and \<^verbatim>\<open>admin_upload_questionnaire\<close> of
  \<^verbatim>\<open>src/website/views.py\<close>.

  Python strings are lists of \<^typ>\<open>char\<close>; a \<^typ>\<open>char\<close> stands for the Unicode code
  point of the same number, so the model covers text whose code points are below 256
  (ASCII and Latin-1). On that range \<^verbatim>\<open>str.strip\<close>, \<^verbatim>\<open>str.lower\<close>, the regular
  expressions of \<^verbatim>\<open>slugify\<close> and \<^verbatim>\<open>repr\<close> are modelled exactly as CPython
  computes them.
\<close>

subsection \<open>Strings: strip, lower, regular-expression substitution, slugify\<close>

text \<open>
  \<^verbatim>\<open>str.strip()\<close> removes the characters for which \<^verbatim>\<open>str.isspace\<close> holds; below 256
  these are U+0009..U+000D, U+001C..U+001F, U+0020, U+0085 and U+00A0.
  \<^verbatim>\<open>str.lower()\<close> adds 32 to A..Z and to U+00C0..U+00DE except U+00D7.
  \<open>slug_char\<close> is the character class \<^verbatim>\<open>[a-z0-9_]\<close>.
  \<open>re_sub_runs P\<close> is \<^verbatim>\<open>re.sub(r"[P]+", "_", text)\<close>: every maximal run of characters
  in the class is replaced by one underscore.
  \<^verbatim>\<open>
  def slugify(text: str) -> str:
      text = (text or "").strip().lower()
      text = re.sub(r"[^a-z0-9_]+", "_", text)
      text = re.sub(r"_+", "_", text).strip("_")
      return text or "question"
  \<close>
  The argument is a string at every call site, so \<^verbatim>\<open>text or ""\<close> is \<^verbatim>\<open>text\<close>.
\<close>


definition is_space :: "char \<Rightarrow> bool" where
  "is_space c = (of_char c \<in> {9::nat, 10, 11, 12, 13, 28, 29, 30, 31, 32, 133, 160})"

definition lower_char :: "char \<Rightarrow> char" where
  "lower_char c =
     (let n = (of_char c :: nat)
      in if (65 \<le> n \<and> n \<le> 90) \<or> (192 \<le> n \<and> n \<le> 222 \<and> n \<noteq> 215)
         then char_of (n + 32) else c)"

definition slug_char :: "char \<Rightarrow> bool" where
  "slug_char c =
     (let n = (of_char c :: nat)
      in (97 \<le> n \<and> n \<le> 122) \<or> (48 \<le> n \<and> n \<le> 57) \<or> c = CHR ''_'')"

definition strip_by :: "(char \<Rightarrow> bool) \<Rightarrow> string \<Rightarrow> string" where
  "strip_by P s = rev (dropWhile P (rev (dropWhile P s)))"

definition strip :: "string \<Rightarrow> string" where
  "strip s = strip_by is_space s"

definition lower :: "string \<Rightarrow> string" where
  "lower s = map lower_char s"

function re_sub_runs :: "(char \<Rightarrow> bool) \<Rightarrow> string \<Rightarrow> string" where
  "re_sub_runs P [] = []"
| "re_sub_runs P (c # cs) =
     (if P c then CHR ''_'' # re_sub_runs P (dropWhile P cs) else c # re_sub_runs P cs)"
  by pat_completeness auto
termination
  by (relation "measure (\<lambda>(P, s). length s)") (auto simp: less_Suc_eq_le length_dropWhile_le)

definition is_underscore :: "char \<Rightarrow> bool" where
  "is_underscore c = (c = CHR ''_'')"

definition slugify :: "string \<Rightarrow> string" where
  "slugify text =
     (let text = lower (strip text);
          text = re_sub_runs (\<lambda>c. \<not> slug_char c) text;
          text = strip_by is_underscore (re_sub_runs is_underscore text)
      in if text = [] then ''question'' else text)"

definition ascii_alnum :: "char \<Rightarrow> bool" where
  "ascii_alnum c =
     (let n = (of_char c :: nat)
      in (97 \<le> n \<and> n \<le> 122) \<or> (65 \<le> n \<and> n \<le> 90) \<or> (48 \<le> n \<and> n \<le> 57))"

subsection \<open>Decimal rendering of integers and the de-duplication loop\<close>

text \<open>
  \<open>str_nat\<close> and \<open>str_int\<close> are \<^verbatim>\<open>str(n)\<close> for Python's unbounded integers, as used
  by the f-strings \<^verbatim>\<open>f"q{i}"\<close> and \<^verbatim>\<open>f"{base_key}_{n}"\<close>.
\<close>

definition digit_char :: "nat \<Rightarrow> char" where
  "digit_char d = char_of (48 + d)"

function str_nat :: "nat \<Rightarrow> string" where
  "str_nat n = (if n < 10 then [digit_char n] else str_nat (n div 10) @ [digit_char (n mod 10)])"
  by pat_completeness auto
termination
  by (relation "measure id") simp_all

declare str_nat.simps [simp del]

definition str_int :: "int \<Rightarrow> string" where
  "str_int i = (if i < 0 then CHR ''-'' # str_nat (nat (- i)) else str_nat (nat i))"

lemma digit_char_inj: "a < 10 \<Longrightarrow> b < 10 \<Longrightarrow> digit_char a = digit_char b \<Longrightarrow> a = b"
proof -
  assume a: "a < 10" and b: "b < 10" and e: "digit_char a = digit_char b"
  from e have "(of_char (digit_char a) :: nat) = of_char (digit_char b)" by simp
  with a b show "a = b" by (simp add: digit_char_def)
qed

lemma str_nat_not_Nil: "str_nat n \<noteq> []"
  by (subst str_nat.simps) simp

lemma str_nat_inj: "str_nat m = str_nat n \<Longrightarrow> m = n"
proof (induction m arbitrary: n rule: str_nat.induct)
  case (1 m)
  show ?case
  proof (cases "m < 10")
    case True
    then have sm: "str_nat m = [digit_char m]" by (subst str_nat.simps) simp
    show ?thesis
    proof (cases "n < 10")
      case True
      then have "str_nat n = [digit_char n]" by (subst str_nat.simps) simp
      with sm "1.prems" \<open>m < 10\<close> True show ?thesis by (auto dest: digit_char_inj)
    next
      case False
      then have "str_nat n = str_nat (n div 10) @ [digit_char (n mod 10)]"
        by (subst str_nat.simps) simp
      with sm "1.prems" str_nat_not_Nil[of "n div 10"] show ?thesis by simp
    qed
  next
    case False
    then have sm: "str_nat m = str_nat (m div 10) @ [digit_char (m mod 10)]"
      by (subst str_nat.simps) simp
    show ?thesis
    proof (cases "n < 10")
      case True
      then have "str_nat n = [digit_char n]" by (subst str_nat.simps) simp
      with sm "1.prems" str_nat_not_Nil[of "m div 10"] show ?thesis by simp
    next
      case nf: False
      then have "str_nat n = str_nat (n div 10) @ [digit_char (n mod 10)]"
        by (subst str_nat.simps) simp
      with sm "1.prems" have e1: "str_nat (m div 10) = str_nat (n div 10)"
        and e2: "digit_char (m mod 10) = digit_char (n mod 10)" by simp_all
      from "1.IH"[OF False e1] have d: "m div 10 = n div 10" .
      from e2 have "m mod 10 = n mod 10" by (rule digit_char_inj[rotated 2]) simp_all
      with d show ?thesis by (metis div_mult_mod_eq)
    qed
  qed
qed

text \<open>
  \<open>suffixed base_key n\<close> is \<^verbatim>\<open>f"{base_key}_{n}"\<close>. The loop
  \<^verbatim>\<open>
  base_key = key
  n = 2
  while key in used_keys:
      key = f"{base_key}_{n}"
      n += 1
  \<close>
  is \<open>dedup_loop base_key 2 base_key used_keys\<close>. The set \<^verbatim>\<open>used_keys\<close> is finite; it is
  modelled by the list of its elements. The loop terminates because the decimal
  rendering is injective, so only finitely many candidates can be taken.
\<close>

definition suffixed :: "string \<Rightarrow> nat \<Rightarrow> string" where
  "suffixed base_key n = base_key @ ''_'' @ str_nat n"

lemma suffixed_inj: "suffixed b m = suffixed b n \<Longrightarrow> m = n"
  by (simp add: suffixed_def str_nat_inj)

lemma finite_suffixed: "finite {m. suffixed b m \<in> set u}"
proof -
  have "inj (suffixed b)" by (rule injI) (rule suffixed_inj)
  then have "finite (suffixed b -` set u)" by (rule finite_vimageI[rotated]) simp
  then show ?thesis by (simp add: vimage_def)
qed

function dedup_loop :: "string \<Rightarrow> nat \<Rightarrow> string \<Rightarrow> string list \<Rightarrow> string" where
  "dedup_loop base_key n key used_keys =
     (if key \<in> set used_keys
      then dedup_loop base_key (n + 1) (suffixed base_key n) used_keys
      else key)"
  by pat_completeness auto
termination
proof (relation "measure (\<lambda>(b, n, k, u).
          card {m. n \<le> m \<and> suffixed b m \<in> set u} + (if k \<in> set u then 1 else 0))")
  show "wf (measure (\<lambda>(b, n, k, u).
          card {m. n \<le> m \<and> suffixed b m \<in> set u} + (if k \<in> set u then 1 else 0)))"
    by simp
next
  fix base_key :: string and n :: nat and key :: string and used_keys :: "string list"
  assume k: "key \<in> set used_keys"
  let ?S = "\<lambda>n. {m. n \<le> m \<and> suffixed base_key m \<in> set used_keys}"
  have fin: "finite (?S n)"
    by (rule finite_subset[OF _ finite_suffixed[of base_key used_keys]]) auto
  have "card (?S (n + 1)) + (if suffixed base_key n \<in> set used_keys then 1 else 0) = card (?S n)"
  proof (cases "suffixed base_key n \<in> set used_keys")
    case True
    have "?S n = insert n (?S (n + 1))" using True by (auto simp: le_less Suc_le_eq)
    moreover have "n \<notin> ?S (n + 1)" by simp
    moreover have "finite (?S (n + 1))" by (rule finite_subset[OF _ fin]) auto
    ultimately show ?thesis using True by simp
  next
    case False
    have "?S n = ?S (n + 1)" using False
      by (auto simp: Suc_le_eq) (metis le_neq_implies_less)
    then show ?thesis using False by simp
  qed
  with k show "((base_key, n + 1, suffixed base_key n, used_keys), (base_key, n, key, used_keys))
       \<in> measure (\<lambda>(b, n, k, u).
          card {m. n \<le> m \<and> suffixed b m \<in> set u} + (if k \<in> set u then 1 else 0))"
    by simp
qed

declare dedup_loop.simps [simp del]

subsection \<open>JSON values as Python sees them\<close>

text \<open>
  The value returned by \<^verbatim>\<open>json.load\<close>: \<^verbatim>\<open>None\<close>, a bool, an unbounded int, a float,
  a str, a list or a dict (its items in insertion order, keys distinct). A float is
  represented by the text \<^verbatim>\<open>repr\<close> prints for it, which is all the code observes of
  it (\<^verbatim>\<open>str\<close> and truth value). \<open>py_str\<close> is \<^verbatim>\<open>str(v)\<close> and \<open>py_repr\<close> is
  \<^verbatim>\<open>repr(v)\<close>, which \<^verbatim>\<open>str\<close> of a list or dict applies to the elements.
\<close>

fun join :: "string \<Rightarrow> string list \<Rightarrow> string" where
  "join sep [] = []"
| "join sep [x] = x"
| "join sep (x # y # r) = x @ sep @ join sep (y # r)"

datatype json =
    JNull
  | JBool bool
  | JInt int
  | JFloat string
  | JStr string
  | JList "json list"
  | JDict "(string \<times> json) list"

definition hex_digit :: "nat \<Rightarrow> char" where
  "hex_digit d = (if d < 10 then char_of (48 + d) else char_of (87 + d))"

definition repr_char :: "char \<Rightarrow> char \<Rightarrow> string" where
  "repr_char quote c =
     (let n = (of_char c :: nat)
      in if c = quote \<or> c = CHR 0x5C then [CHR 0x5C, c]
         else if c = CHR 0x09 then [CHR 0x5C, CHR ''t'']
         else if c = CHR 0x0A then [CHR 0x5C, CHR ''n'']
         else if c = CHR 0x0D then [CHR 0x5C, CHR ''r'']
         else if n < 32 \<or> n = 127 \<or> (128 \<le> n \<and> n \<le> 160) \<or> n = 173
           then [CHR 0x5C, CHR ''x'', hex_digit (n div 16), hex_digit (n mod 16)]
         else [c])"

definition repr_str :: "string \<Rightarrow> string" where
  "repr_str s =
     (let quote = (if CHR 0x27 \<in> set s \<and> CHR 0x22 \<notin> set s then CHR 0x22 else CHR 0x27)
      in quote # concat (map (repr_char quote) s) @ [quote])"

fun py_repr :: "json \<Rightarrow> string" where
  "py_repr JNull = ''None''"
| "py_repr (JBool b) = (if b then ''True'' else ''False'')"
| "py_repr (JInt i) = str_int i"
| "py_repr (JFloat r) = r"
| "py_repr (JStr s) = repr_str s"
| "py_repr (JList xs) = ''['' @ join '', '' (map py_repr xs) @ '']''"
| "py_repr (JDict kvs) =
     ''{'' @ join '', '' (map (\<lambda>(k, v). repr_str k @ '': '' @ py_repr v) kvs) @ ''}''"

definition py_str :: "json \<Rightarrow> string" where
  "py_str v = (case v of JStr s \<Rightarrow> s | _ \<Rightarrow> py_repr v)"

subsection \<open>normalize_questions\<close>

text \<open>
  A normalised question is the dict built at lines 137-146 of views.py; the key
  \<^verbatim>\<open>options\<close> is present only for the types choice and multi, hence the option type.
\<close>

record question =
  q_id :: nat
  q_key :: string
  q_label :: string
  q_description :: string
  q_type :: string
  q_required :: bool
  q_options :: "string list option"

text \<open>
  Truth value of a JSON value (\<^verbatim>\<open>bool(v)\<close>), \<^verbatim>\<open>a or b\<close>, \<^verbatim>\<open>k in d\<close>,
  \<^verbatim>\<open>d.get(k, default)\<close> and \<^verbatim>\<open>d.get(k)\<close>.
\<close>

definition truthy :: "json \<Rightarrow> bool" where
  "truthy v =
     (case v of
        JNull \<Rightarrow> False
      | JBool b \<Rightarrow> b
      | JInt i \<Rightarrow> i \<noteq> 0
      | JFloat r \<Rightarrow> r \<noteq> ''0.0'' \<and> r \<noteq> ''-0.0''
      | JStr s \<Rightarrow> s \<noteq> []
      | JList xs \<Rightarrow> xs \<noteq> []
      | JDict kvs \<Rightarrow> kvs \<noteq> [])"

definition py_or :: "json \<Rightarrow> json \<Rightarrow> json" where
  "py_or a b = (if truthy a then a else b)"

definition has_key :: "(string \<times> json) list \<Rightarrow> string \<Rightarrow> bool" where
  "has_key d k = (k \<in> set (map fst d))"

definition dict_get_default :: "(string \<times> json) list \<Rightarrow> string \<Rightarrow> json \<Rightarrow> json" where
  "dict_get_default d k dflt = (case map_of d k of None \<Rightarrow> dflt | Some v \<Rightarrow> v)"

definition dict_get :: "(string \<times> json) list \<Rightarrow> string \<Rightarrow> json" where
  "dict_get d k = dict_get_default d k JNull"

text \<open>
  The fields the loop body reads from one element (lines 94-112): the new format
  when the element has \<^verbatim>\<open>key\<close> and one of \<^verbatim>\<open>label\<close>, \<^verbatim>\<open>question\<close>; the old format
  otherwise.
  \<^verbatim>\<open>
  if "key" in q and ("label" in q or "question" in q):
      key = str(q.get("key") or "").strip()
      label = str(q.get("label") or q.get("question") or "").strip()
      desc = str(q.get("description") or q.get("desc") or "").strip()
      qtype = str(q.get("type") or "text").strip()
      required = bool(q.get("required", False))
      options = q.get("options")
  else:
      label = str(q.get("question") or q.get("label") or "").strip()
      desc = str(q.get("description") or "").strip()
      options = q.get("options")
      qtype = "choice" if isinstance(options, list) and len(options) > 0 else "text"
      required = bool(q.get("required", True))
      key = str(q.get("key") or "").strip()
      if not key:
          key = slugify(label) or f"q{i}"
  \<close>
\<close>

record entry =
  e_key :: string
  e_label :: string
  e_desc :: string
  e_qtype :: string
  e_required :: bool
  e_options :: json

definition new_format :: "(string \<times> json) list \<Rightarrow> bool" where
  "new_format q = (has_key q ''key'' \<and> (has_key q ''label'' \<or> has_key q ''question''))"

definition read_entry :: "nat \<Rightarrow> (string \<times> json) list \<Rightarrow> entry" where
  "read_entry i q =
     (if new_format q then
        \<lparr> e_key = strip (py_str (py_or (dict_get q ''key'') (JStr ''''))),
          e_label = strip (py_str (py_or (py_or (dict_get q ''label'') (dict_get q ''question'')) (JStr ''''))),
          e_desc = strip (py_str (py_or (py_or (dict_get q ''description'') (dict_get q ''desc'')) (JStr ''''))),
          e_qtype = strip (py_str (py_or (dict_get q ''type'') (JStr ''text''))),
          e_required = truthy (dict_get_default q ''required'' (JBool False)),
          e_options = dict_get q ''options'' \<rparr>
      else
        (let label = strip (py_str (py_or (py_or (dict_get q ''question'') (dict_get q ''label'')) (JStr '''')));
             desc = strip (py_str (py_or (dict_get q ''description'') (JStr '''')));
             options = dict_get q ''options'';
             qtype = (case options of
                        JList os \<Rightarrow> if length os > 0 then ''choice'' else ''text''
                      | _ \<Rightarrow> ''text'');
             required = truthy (dict_get_default q ''required'' (JBool True));
             key = strip (py_str (py_or (dict_get q ''key'') (JStr '''')));
             key = (if key = []
                    then (let s = slugify label in if s = [] then ''q'' @ str_nat i else s)
                    else key)
         in \<lparr> e_key = key, e_label = label, e_desc = desc, e_qtype = qtype,
              e_required = required, e_options = options \<rparr>))"

text \<open>
  Lines 117-119: \<^verbatim>\<open>if not key: key = f"q{i}"\<close> followed by \<^verbatim>\<open>key = slugify(key)\<close>.
\<close>

definition resolve_key :: "nat \<Rightarrow> string \<Rightarrow> string" where
  "resolve_key i key = slugify (if key = [] then ''q'' @ str_nat i else key)"

text \<open>
  Lines 130-135: for choice and multi, a non-list becomes the empty list and the
  options are the non-empty \<^verbatim>\<open>str(o).strip()\<close>; for the other types there is no
  \<^verbatim>\<open>options\<close> key.
\<close>

definition clean_options :: "string \<Rightarrow> json \<Rightarrow> string list option" where
  "clean_options qtype options =
     (if qtype = ''choice'' \<or> qtype = ''multi''
      then Some (filter (\<lambda>s. s \<noteq> [])
                   (map (\<lambda>opt. strip (py_str opt)) (case options of JList os \<Rightarrow> os | _ \<Rightarrow> [])))
      else None)"

text \<open>
  One iteration of \<^verbatim>\<open>for i, q in enumerate(raw, start=1)\<close> on the state
  (\<^verbatim>\<open>normalized\<close>, \<^verbatim>\<open>used_keys\<close>): an element that is not a dict, or whose label is
  empty, is skipped (\<^verbatim>\<open>continue\<close>); otherwise one record is appended and its key
  added to \<^verbatim>\<open>used_keys\<close>.
\<close>

definition norm_step :: "nat \<Rightarrow> json \<Rightarrow> question list \<times> string list \<Rightarrow> question list \<times> string list" where
  "norm_step i q st =
     (case st of (normalized, used_keys) \<Rightarrow>
       (case q of
          JDict d \<Rightarrow>
            (let e = read_entry i d
             in if e_label e = [] then (normalized, used_keys)
                else
                  (let base_key = resolve_key i (e_key e);
                       key = dedup_loop base_key 2 base_key used_keys
                   in (normalized @
                         [\<lparr> q_id = i, q_key = key, q_label = e_label e, q_description = e_desc e,
                            q_type = e_qtype e, q_required = e_required e,
                            q_options = clean_options (e_qtype e) (e_options e) \<rparr>],
                       key # used_keys)))
        | _ \<Rightarrow> (normalized, used_keys)))"

fun norm_loop :: "nat \<Rightarrow> json list \<Rightarrow> question list \<times> string list \<Rightarrow> question list \<times> string list" where
  "norm_loop i [] st = st"
| "norm_loop i (q # qs) st = norm_loop (Suc i) qs (norm_step i q st)"

text \<open>
  \<^verbatim>\<open>
  if raw is None: return []
  if isinstance(raw, dict) and "questions" in raw: raw = raw["questions"]
  if not isinstance(raw, list): return []
  \<close>
  and then the loop from position 1 with both accumulators empty.
\<close>

definition normalize_questions :: "json \<Rightarrow> question list" where
  "normalize_questions raw =
     (case raw of
        JNull \<Rightarrow> []
      | _ \<Rightarrow>
        (let raw = (case raw of
                      JDict d \<Rightarrow> if has_key d ''questions'' then dict_get d ''questions'' else raw
                    | _ \<Rightarrow> raw)
         in case raw of
              JList qs \<Rightarrow> fst (norm_loop 1 qs ([], []))
            | _ \<Rightarrow> []))"

subsection \<open>Notions used to state the properties of normalize_questions\<close>

text \<open>
  \<open>source_list raw\<close> is the list the loop runs over: \<^verbatim>\<open>raw\<close> itself when it is a list,
  \<^verbatim>\<open>raw["questions"]\<close> when \<^verbatim>\<open>raw\<close> is a dict with that key holding a list, and
  no element in the cases where the function returns \<^verbatim>\<open>[]\<close> before the loop.
  \<open>valid_entry q\<close> says that the loop does not skip the element \<open>q\<close>: it is a dict and
  the label read from it is not empty (the label does not depend on the position).
  \<open>slug_key s\<close> says that \<open>s\<close> is a non-empty string of characters of
  \<^verbatim>\<open>[a-z0-9_]\<close>, so that it matches \<^verbatim>\<open>^[a-z0-9_]+$\<close>. \<open>nonempty_list v\<close> is
  \<^verbatim>\<open>isinstance(v, list) and len(v) > 0\<close>.
\<close>

definition source_list :: "json \<Rightarrow> json list" where
  "source_list raw =
     (case raw of
        JList qs \<Rightarrow> qs
      | JDict d \<Rightarrow> (if has_key d ''questions''
                     then (case dict_get d ''questions'' of JList qs \<Rightarrow> qs | _ \<Rightarrow> [])
                     else [])
      | _ \<Rightarrow> [])"

definition valid_entry :: "json \<Rightarrow> bool" where
  "valid_entry q = (case q of JDict d \<Rightarrow> e_label (read_entry 0 d) \<noteq> [] | _ \<Rightarrow> False)"

definition slug_key :: "string \<Rightarrow> bool" where
  "slug_key s = (s \<noteq> [] \<and> list_all slug_char s)"

definition nonempty_list :: "json \<Rightarrow> bool" where
  "nonempty_list v = (case v of JList os \<Rightarrow> os \<noteq> [] | _ \<Rightarrow> False)"

subsection \<open>The submitted form and the validation loop of questionnaire\<close>

text \<open>
  \<^verbatim>\<open>request.form\<close> is a multi-dict: a field name gives the list of the values
  submitted under it (empty when the field is absent). \<^verbatim>\<open>form.get(name, default)\<close>
  is the first value or the default, \<^verbatim>\<open>form.getlist(name)\<close> the whole list.
\<close>

type_synonym form = "string \<Rightarrow> string list"

definition form_get :: "form \<Rightarrow> string \<Rightarrow> string \<Rightarrow> string" where
  "form_get frm name dflt = (case frm name of [] \<Rightarrow> dflt | v # _ \<Rightarrow> v)"

definition form_getlist :: "form \<Rightarrow> string \<Rightarrow> string list" where
  "form_getlist frm name = frm name"

text \<open>
  \<^verbatim>\<open>a or b\<close> on strings, \<^verbatim>\<open>s.split(sep)\<close> for a one-character separator,
  \<^verbatim>\<open>s.replace(old, new)\<close> for single characters, and the comprehension
  \<^verbatim>\<open>[v.strip() for v in vs if v.strip()]\<close>.
\<close>

definition str_or :: "string \<Rightarrow> string \<Rightarrow> string" where
  "str_or a b = (if a = [] then b else a)"

fun split_on :: "char \<Rightarrow> string \<Rightarrow> string list" where
  "split_on sep [] = [[]]"
| "split_on sep (c # cs) =
     (if c = sep then [] # split_on sep cs
      else (case split_on sep cs of
              [] \<Rightarrow> [[c]]
            | w # ws \<Rightarrow> (c # w) # ws))"

definition replace_char :: "char \<Rightarrow> char \<Rightarrow> string \<Rightarrow> string" where
  "replace_char old new s = map (\<lambda>c. if c = old then new else c) s"

definition trimmed_nonempty :: "string list \<Rightarrow> string list" where
  "trimmed_nonempty vs = filter (\<lambda>v. v \<noteq> []) (map strip vs)"

text \<open>
  Lines 245-249, the value read for a question:
  \<^verbatim>\<open>
  if qtype == "multi":
      selected = request.form.getlist(f"{key}[]")
      value = " | ".join([v.strip() for v in selected if v.strip()]).strip()
  else:
      value = (request.form.get(key, "") or "").strip()
  \<close>
\<close>

definition submitted_value :: "question \<Rightarrow> form \<Rightarrow> string" where
  "submitted_value q frm =
     (if q_type q = ''multi''
      then strip (join '' | '' (trimmed_nonempty (form_getlist frm (q_key q @ ''[]''))))
      else strip (str_or (form_get frm (q_key q) '''') ''''))"

text \<open>
  The error messages; the quote is U+0027, \<^verbatim>\<open>e\<close> with circumflex is U+00EA and
  \<^verbatim>\<open>e\<close> with acute accent is U+00E9.
\<close>

definition msg_required :: "string \<Rightarrow> string" where
  "msg_required label = [CHR 0x27] @ label @ [CHR 0x27] @ '' est obligatoire.''"

definition msg_number :: "string \<Rightarrow> string" where
  "msg_number label =
     [CHR 0x27] @ label @ [CHR 0x27] @ '' doit '' @ [CHR 0xEA] @ ''tre un nombre valide.''"

definition msg_date :: "string \<Rightarrow> string" where
  "msg_date label =
     [CHR 0x27] @ label @ [CHR 0x27] @ '' doit '' @ [CHR 0xEA] @ ''tre une date valide (YYYY-MM-DD).''"

definition msg_choice :: "string \<Rightarrow> string" where
  "msg_choice label = ''R'' @ [CHR 0xE9] @ ''ponse invalide pour '' @ [CHR 0x27] @ label @ [CHR 0x27] @ ''.''"

definition msg_multi :: "string \<Rightarrow> string" where
  "msg_multi label = ''R'' @ [CHR 0xE9] @ ''ponses invalides pour '' @ [CHR 0x27] @ label @ [CHR 0x27] @ ''.''"

text \<open>
  \<^verbatim>\<open>q.get("options") or []\<close>. The fields \<^verbatim>\<open>label\<close>, \<^verbatim>\<open>type\<close> and
  \<^verbatim>\<open>required\<close> are present in every normalised question, so the defaults of
  \<^verbatim>\<open>q.get("label", key)\<close>, \<^verbatim>\<open>q.get("type", "text")\<close> and
  \<^verbatim>\<open>q.get("required", False)\<close> are never taken.
\<close>

definition options_or_empty :: "question \<Rightarrow> string list" where
  "options_or_empty q = (case q_options q of None \<Rightarrow> [] | Some opts \<Rightarrow> opts)"

text \<open>
  One iteration of \<^verbatim>\<open>for q in questions\<close> (lines 238-291) on the state
  (\<^verbatim>\<open>answers\<close>, \<^verbatim>\<open>errors\<close>). Every \<^verbatim>\<open>continue\<close> after
  \<^verbatim>\<open>errors.append\<close> leaves \<^verbatim>\<open>answers\<close> as it is. The two library parsers are
  parameters: \<open>float_ok s\<close> says that \<^verbatim>\<open>float(s)\<close> does not raise ValueError and
  \<open>date_ok s\<close> that \<^verbatim>\<open>datetime.strptime(s, "%Y-%m-%d")\<close> does not.
\<close>

type_synonym answers = "string \<rightharpoonup> string"

definition validate_step ::
  "(string \<Rightarrow> bool) \<Rightarrow> (string \<Rightarrow> bool) \<Rightarrow> form \<Rightarrow> question \<Rightarrow> answers \<times> string list \<Rightarrow> answers \<times> string list" where
  "validate_step float_ok date_ok frm q st =
     (case st of (answers, errors) \<Rightarrow>
       (let key = q_key q; label = q_label q; qtype = q_type q; required = q_required q;
            val = submitted_value q frm
        in if required \<and> val = [] then (answers, errors @ [msg_required label])
           else if val = [] then (answers(key \<mapsto> ''''), errors)
           else if qtype = ''number'' then
             (if float_ok (replace_char CHR '','' CHR ''.'' val)
              then (answers(key \<mapsto> val), errors)
              else (answers, errors @ [msg_number label]))
           else if qtype = ''date'' then
             (if date_ok val
              then (answers(key \<mapsto> val), errors)
              else (answers, errors @ [msg_date label]))
           else if qtype = ''choice'' then
             (let opts = options_or_empty q
              in if opts \<noteq> [] \<and> val \<notin> set opts
                 then (answers, errors @ [msg_choice label])
                 else (answers(key \<mapsto> val), errors))
           else if qtype = ''multi'' then
             (let opts = options_or_empty q
              in if opts \<noteq> []
                 then (let chosen = trimmed_nonempty (split_on CHR ''|'' val);
                           invalid = filter (\<lambda>v. v \<notin> set opts) chosen
                       in if invalid \<noteq> []
                          then (answers, errors @ [msg_multi label])
                          else (answers(key \<mapsto> val), errors))
                 else (answers(key \<mapsto> val), errors))
           else (answers(key \<mapsto> val), errors)))"

definition validate ::
  "(string \<Rightarrow> bool) \<Rightarrow> (string \<Rightarrow> bool) \<Rightarrow> form \<Rightarrow> question list \<Rightarrow> answers \<times> string list" where
  "validate float_ok date_ok frm questions =
     foldl (\<lambda>st q. validate_step float_ok date_ok frm q st) (Map.empty, []) questions"

subsection \<open>Loading, saving and the request handlers\<close>

text \<open>
  The definition files: what \<^verbatim>\<open>open\<close> followed by \<^verbatim>\<open>json.load\<close> does for the file of
  a given name in the questionnaire directory. It raises FileNotFoundError (no such
  file), raises JSONDecodeError (the text is not JSON), raises another exception, or
  returns a value. The other exceptions are those that \<^verbatim>\<open>load_questions\<close> does not
  catch: UnicodeDecodeError when the bytes of the file are not valid UTF-8,
  ValueError when an integer literal is longer than the conversion limit,
  RecursionError on nesting that is too deep, and an OSError other than
  FileNotFoundError. \<open>Forbidden\<close> is the exception \<^verbatim>\<open>abort(403)\<close> raises in the
  handlers.
  \<^verbatim>\<open>
  def load_questions(qid: str):
      filename = os.path.join(questionnaires_dir(), f'{qid}.json')
      try:
          with open(filename, 'r', encoding='utf-8') as file:
              raw = json.load(file)
              return normalize_questions(raw)
      except FileNotFoundError:
          return None
      except json.JSONDecodeError:
          return []
  \<close>
  An exception that is not caught leaves the function: the result is \<open>Inl\<close> of it.
\<close>

datatype py_exception = UnicodeDecodeError | ValueError | RecursionError | OSError | Forbidden

datatype load_outcome = FileNotFound | DecodeError | Raises py_exception | Loaded json

definition load_questions ::
  "(string \<Rightarrow> load_outcome) \<Rightarrow> string \<Rightarrow> py_exception + question list option" where
  "load_questions defs qid =
     (case defs (qid @ ''.json'') of
        Loaded raw \<Rightarrow> Inr (Some (normalize_questions raw))
      | FileNotFound \<Rightarrow> Inr None
      | DecodeError \<Rightarrow> Inr (Some [])
      | Raises e \<Rightarrow> Inl e)"

text \<open>
  The result log of an identifier is the list of the rows written to its CSV file
  (absent when the file does not exist); a row is the list of its fields.
  \<^verbatim>\<open>save_answers\<close> writes the header when the file is new and appends one row:
  the submitter's metadata, then \<^verbatim>\<open>answers.get(k, "")\<close> for every question key.
  The date text \<^verbatim>\<open>datetime.now().strftime("%d/%m/%Y")\<close> and \<^verbatim>\<open>current_user\<close>
  are parameters.
\<close>

record user =
  user_id :: int
  first_name :: string
  email :: string

type_synonym csv_file = "string list list"
type_synonym results = "string \<rightharpoonup> csv_file"

definition save_answers ::
  "string \<Rightarrow> user \<Rightarrow> results \<Rightarrow> string \<Rightarrow> question list \<Rightarrow> answers \<Rightarrow> results" where
  "save_answers today current_user res qid questions answers =
     (let fieldnames = [''date'', ''user_id'', ''user_name'', ''user_email''] @ map q_key questions;
          row0 = [''date'' \<mapsto> today,
                  ''user_id'' \<mapsto> str_int (user_id current_user),
                  ''user_name'' \<mapsto> first_name current_user,
                  ''user_email'' \<mapsto> email current_user];
          row = foldl (\<lambda>row q. row(q_key q \<mapsto> (case answers (q_key q) of None \<Rightarrow> '''' | Some v \<Rightarrow> v)))
                  row0 questions;
          line = map (\<lambda>f. case row f of None \<Rightarrow> '''' | Some v \<Rightarrow> v) fieldnames
      in res(qid \<mapsto> (case res qid of None \<Rightarrow> [fieldnames] | Some rows \<Rightarrow> rows) @ [line]))"

text \<open>
  The handler \<^verbatim>\<open>questionnaire(qid)\<close>: its response, the messages it flashes (with
  their category) and the result logs after it; or the exception that leaves
  \<^verbatim>\<open>load_questions\<close> at its first line, before anything is flashed or written.
  A response is a redirect to a named endpoint, a redirect to \<^verbatim>\<open>request.url\<close>, a
  rendered template with its questions and identifier, or no response at all (the
  function returns \<^verbatim>\<open>None\<close>).
\<close>

datatype http_method = GET | POST

datatype response =
    Redirect string
  | RedirectRequestUrl
  | Render string "question list" string
  | NoResponse

definition msg_not_found :: "string \<Rightarrow> string" where
  "msg_not_found qid = ''Questionnaire '' @ [CHR 0x27] @ qid @ [CHR 0x27] @ '' introuvable.''"

definition msg_unreadable :: string where
  "msg_unreadable = ''Le fichier JSON est vide ou n'' @ [CHR 0x27] @ ''a pas un format lisible.''"

definition msg_thanks :: string where
  "msg_thanks = ''Merci ! Vos r'' @ [CHR 0xE9] @ ''ponses ont '' @ [CHR 0xE9] @ ''t'' @ [CHR 0xE9]
                 @ '' enregistr'' @ [CHR 0xE9] @ ''es.''"

definition questionnaire ::
  "(string \<Rightarrow> bool) \<Rightarrow> (string \<Rightarrow> bool) \<Rightarrow> (string \<Rightarrow> load_outcome) \<Rightarrow> string \<Rightarrow> user
     \<Rightarrow> http_method \<Rightarrow> form \<Rightarrow> results \<Rightarrow> string
     \<Rightarrow> py_exception + response \<times> (string \<times> string) list \<times> results" where
  "questionnaire float_ok date_ok defs today current_user meth frm res qid =
     (case load_questions defs qid of
        Inl e \<Rightarrow> Inl e
      | Inr None \<Rightarrow> Inr (Redirect ''views.quiz'', [(msg_not_found qid, ''error'')], res)
      | Inr (Some questions) \<Rightarrow>
          if questions = [] then Inr (Redirect ''views.quiz'', [(msg_unreadable, ''error'')], res)
          else if meth = POST then
            (case validate float_ok date_ok frm questions of (answers, errors) \<Rightarrow>
               if errors \<noteq> []
               then Inr (Render ''quiz.html'' questions qid, map (\<lambda>msg. (msg, ''error'')) errors, res)
               else Inr (Redirect ''views.quiz'', [(msg_thanks, ''success'')],
                         save_answers today current_user res qid questions answers))
          else Inr (Render ''quiz.html'' questions qid, [], res))"

text \<open>
  \<^verbatim>\<open>allowed_file\<close> (lines 197-198), with \<^verbatim>\<open>ALLOWED_EXTENSIONS = {'json'}\<close>; the part
  after the last dot is \<^verbatim>\<open>filename.rsplit('.', 1)[1]\<close>.
  \<^verbatim>\<open>
  def allowed_file(filename: str) -> bool:
      return '.' in filename and filename.rsplit('.', 1)[1].lower() in ALLOWED_EXTENSIONS
  \<close>
\<close>

definition allowed_file :: "string \<Rightarrow> bool" where
  "allowed_file filename =
     (CHR ''.'' \<in> set filename
      \<and> lower (rev (takeWhile (\<lambda>c. c \<noteq> CHR ''.'') (rev filename))) = ''json'')"

text \<open>
  The handler \<^verbatim>\<open>admin_upload_questionnaire\<close> (lines 504-531). The uploaded file
  \<^verbatim>\<open>request.files.get('file')\<close> is absent, or has a name and bytes; the bytes are
  given by what \<^verbatim>\<open>open\<close> and \<^verbatim>\<open>json.load\<close> will do on the file once it is saved.
  \<^verbatim>\<open>current_user.is_admin\<close> is a parameter, and so are the library functions
  \<^verbatim>\<open>secure_filename\<close> and \<^verbatim>\<open>os.path.splitext(filename)[0]\<close>. The result is the state
  of the definition files after the call, with the response and the flashed
  messages or the exception that leaves the handler. \<^verbatim>\<open>os.makedirs\<close> and
  \<^verbatim>\<open>file.save\<close> are taken to succeed. A GET request reaches the end of the
  function.
  \<^verbatim>\<open>
  if not current_user.is_admin:
      abort(403)
  if request.method == 'POST':
      file = request.files.get('file')
      if not file or file.filename == '':
          flash("Aucun fichier selectionne.", "error")
          return redirect(request.url)
      if not allowed_file(file.filename):
          flash("Seuls les fichiers .json sont autorises.", "error")
          return redirect(request.url)
      filename = secure_filename(file.filename)
      ...
      file.save(save_path)
      qid = os.path.splitext(filename)[0]
      test = load_questions(qid)
      if not test:
          flash("Import OK, mais le JSON n'est pas reconnu (format inattendu ou vide).", "error")
      flash(f"Questionnaire '{filename}' importe.", "success")
      return redirect(url_for('views.admin_questionnaires'))
  \<close>
  (the accented letters of the messages are U+00E9 in the definitions below).
\<close>

definition msg_no_file :: string where
  "msg_no_file = ''Aucun fichier s'' @ [CHR 0xE9] @ ''lectionn'' @ [CHR 0xE9] @ ''.''"

definition msg_only_json :: string where
  "msg_only_json = ''Seuls les fichiers .json sont autoris'' @ [CHR 0xE9] @ ''s.''"

definition msg_not_recognised :: string where
  "msg_not_recognised =
     ''Import OK, mais le JSON n'' @ [CHR 0x27] @ ''est pas reconnu (format inattendu ou vide).''"

definition msg_imported :: "string \<Rightarrow> string" where
  "msg_imported filename =
     ''Questionnaire '' @ [CHR 0x27] @ filename @ [CHR 0x27] @ '' import'' @ [CHR 0xE9] @ ''.''"

definition admin_upload_questionnaire ::
  "(string \<Rightarrow> string) \<Rightarrow> (string \<Rightarrow> string) \<Rightarrow> bool \<Rightarrow> http_method
     \<Rightarrow> (string \<times> load_outcome) option \<Rightarrow> (string \<Rightarrow> load_outcome)
     \<Rightarrow> (string \<Rightarrow> load_outcome) \<times> (py_exception + response \<times> (string \<times> string) list)" where
  "admin_upload_questionnaire secure_filename splitext_root is_admin meth file defs =
     (if \<not> is_admin then (defs, Inl Forbidden)
      else if meth = POST then
        (case file of
           None \<Rightarrow> (defs, Inr (RedirectRequestUrl, [(msg_no_file, ''error'')]))
         | Some (name, content) \<Rightarrow>
             if name = [] then (defs, Inr (RedirectRequestUrl, [(msg_no_file, ''error'')]))
             else if \<not> allowed_file name
               then (defs, Inr (RedirectRequestUrl, [(msg_only_json, ''error'')]))
             else
               (let filename = secure_filename name;
                    defs = defs(filename := content);
                    qid = splitext_root filename
                in case load_questions defs qid of
                     Inl e \<Rightarrow> (defs, Inl e)
                   | Inr test \<Rightarrow>
                       (defs,
                        Inr (Redirect ''views.admin_questionnaires'',
                             (if test = None \<or> test = Some []
                              then [(msg_not_recognised, ''error'')] else [])
                             @ [(msg_imported filename, ''success'')]))))
      else (defs, Inr (NoResponse, [])))"

subsection \<open>The library functions, for concrete runs\<close>

text \<open>
  \<open>py_float_ok\<close> follows the grammar of \<^verbatim>\<open>float(s)\<close> in the Python reference:
  surrounding white space, an optional sign, then \<^verbatim>\<open>inf\<close>, \<^verbatim>\<open>infinity\<close> or
  \<^verbatim>\<open>nan\<close> in any case, or digits with an optional point and exponent, where single
  underscores may stand between digits. \<open>py_date_ok\<close> follows
  \<^verbatim>\<open>strptime(s, "%Y-%m-%d")\<close>: four digits, a month 1..12 and a day of that month,
  each of one or two digits, of a year from 1 on. They instantiate the parameters
  \<open>float_ok\<close> and \<open>date_ok\<close> in the examples; the theorems hold for every parser.
\<close>

definition is_digit :: "char \<Rightarrow> bool" where
  "is_digit c = (let n = (of_char c :: nat) in 48 \<le> n \<and> n \<le> 57)"

fun digitpart_from :: "string \<Rightarrow> bool" where
  "digitpart_from [] = False"
| "digitpart_from [c] = is_digit c"
| "digitpart_from (c # d # r) =
     (is_digit c \<and> (if d = CHR ''_'' then digitpart_from r else digitpart_from (d # r)))"

definition drop_sign :: "string \<Rightarrow> string" where
  "drop_sign s = (case s of c # r \<Rightarrow> if c = CHR ''+'' \<or> c = CHR ''-'' then r else s | [] \<Rightarrow> s)"

definition float_number :: "string \<Rightarrow> bool" where
  "float_number m =
     (case dropWhile (\<lambda>c. c \<noteq> CHR ''.'') m of
        [] \<Rightarrow> digitpart_from m
      | _ # fp \<Rightarrow>
          (let ip = takeWhile (\<lambda>c. c \<noteq> CHR ''.'') m
           in if fp = [] then digitpart_from ip
              else (ip = [] \<or> digitpart_from ip) \<and> digitpart_from fp))"

definition py_float_ok :: "string \<Rightarrow> bool" where
  "py_float_ok s =
     (let t = drop_sign (strip s);
          is_e = (\<lambda>c. c = CHR ''e'' \<or> c = CHR ''E'')
      in if lower t \<in> {''inf'', ''infinity'', ''nan''} then True
         else (case dropWhile (\<lambda>c. \<not> is_e c) t of
                 [] \<Rightarrow> float_number t
               | _ # ex \<Rightarrow> float_number (takeWhile (\<lambda>c. \<not> is_e c) t) \<and> digitpart_from (drop_sign ex)))"

definition digits_val :: "string \<Rightarrow> nat" where
  "digits_val s = foldl (\<lambda>a c. 10 * a + (of_char c - 48)) 0 s"

definition days_in_month :: "nat \<Rightarrow> nat \<Rightarrow> nat" where
  "days_in_month y m =
     (if m = 2 then (if y mod 4 = 0 \<and> (y mod 100 \<noteq> 0 \<or> y mod 400 = 0) then 29 else 28)
      else if m \<in> {4, 6, 9, 11} then 30 else 31)"

definition py_date_ok :: "string \<Rightarrow> bool" where
  "py_date_ok s =
     (case split_on CHR ''-'' s of
        [y, m, d] \<Rightarrow>
          (let d = (case d of c # r \<Rightarrow> if c = CHR '' '' \<and> length r = 1 then r else d | [] \<Rightarrow> d)
           in length y = 4 \<and> list_all is_digit y \<and> 1 \<le> digits_val y
              \<and> length m \<in> {1, 2} \<and> list_all is_digit m
              \<and> 1 \<le> digits_val m \<and> digits_val m \<le> 12
              \<and> length d \<in> {1, 2} \<and> list_all is_digit d
              \<and> 1 \<le> digits_val d \<and> digits_val d \<le> days_in_month (digits_val y) (digits_val m))
      | _ \<Rightarrow> False)"

text \<open>
  \<open>py_splitext_root\<close> is \<^verbatim>\<open>os.path.splitext(p)[0]\<close> for a name without directory
  separator: the part before the last dot, when some character before that dot is
  not a dot; the whole name otherwise.
\<close>

definition py_splitext_root :: "string \<Rightarrow> string" where
  "py_splitext_root p =
     (let before = rev (drop 1 (dropWhile (\<lambda>c. c \<noteq> CHR ''.'') (rev p)))
      in if CHR ''.'' \<in> set p \<and> list_ex (\<lambda>c. c \<noteq> CHR ''.'') before then before else p)"

subsection \<open>Auxiliary notions for the proofs\<close>

text \<open>
  \<open>no_double s\<close>: no two adjacent underscores in \<open>s\<close>. \<open>canonical t\<close>: \<open>t\<close> is a
  possible result of the pipeline of \<open>slugify\<close> before its fallback.
\<close>

definition no_double :: "string \<Rightarrow> bool" where
  "no_double s = (\<not> sublist ''__'' s)"

definition canonical :: "string \<Rightarrow> bool" where
  "canonical t \<longleftrightarrow> t \<noteq> [] \<and> (\<forall>c\<in>set t. slug_char c) \<and> no_double t
      \<and> \<not> is_underscore (hd t) \<and> \<not> is_underscore (last t)"

text \<open>
  \<open>question_error\<close> is the decision one iteration takes: the message it appends, or
  none when it stores the value. \<open>run_steps\<close> is the loop from any state.
\<close>

definition question_error ::
  "(string \<Rightarrow> bool) \<Rightarrow> (string \<Rightarrow> bool) \<Rightarrow> form \<Rightarrow> question \<Rightarrow> string option" where
  "question_error float_ok date_ok frm q =
     (let val = submitted_value q frm
      in if q_required q \<and> val = [] then Some (msg_required (q_label q))
         else if val = [] then None
         else if q_type q = ''number'' then
           (if float_ok (replace_char CHR '','' CHR ''.'' val) then None
            else Some (msg_number (q_label q)))
         else if q_type q = ''date'' then
           (if date_ok val then None else Some (msg_date (q_label q)))
         else if q_type q = ''choice'' then
           (if options_or_empty q \<noteq> [] \<and> val \<notin> set (options_or_empty q)
            then Some (msg_choice (q_label q)) else None)
         else if q_type q = ''multi'' then
           (if options_or_empty q \<noteq> []
               \<and> filter (\<lambda>v. v \<notin> set (options_or_empty q))
                     (trimmed_nonempty (split_on CHR ''|'' val)) \<noteq> []
            then Some (msg_multi (q_label q)) else None)
         else None)"

definition run_steps ::
  "(string \<Rightarrow> bool) \<Rightarrow> (string \<Rightarrow> bool) \<Rightarrow> form \<Rightarrow> question list \<Rightarrow> answers \<times> string list \<Rightarrow> answers \<times> string list" where
  "run_steps float_ok date_ok frm questions st =
     foldl (\<lambda>st q. validate_step float_ok date_ok frm q st) st questions"

text \<open>
  \<open>emit i d used_keys\<close> is the record one iteration appends for the dict \<open>d\<close> at
  position \<open>i\<close> when the keys in \<open>used_keys\<close> are taken.
\<close>

definition emit :: "nat \<Rightarrow> (string \<times> json) list \<Rightarrow> string list \<Rightarrow> question" where
  "emit i d used_keys =
     (let e = read_entry i d; base_key = resolve_key i (e_key e)
      in \<lparr> q_id = i, q_key = dedup_loop base_key 2 base_key used_keys, q_label = e_label e,
           q_description = e_desc e, q_type = e_qtype e, q_required = e_required e,
           q_options = clean_options (e_qtype e) (e_options e) \<rparr>)"

subsection \<open>Properties of the string functions\<close>

lemma strip_by_sublist: "sublist (strip_by P s) s"
proof -
  have "sublist (rev (dropWhile P (rev (dropWhile P s)))) (dropWhile P s)"
    by (simp add: sublist_rev_left)
  moreover have "sublist (dropWhile P s) s" by simp
  ultimately show ?thesis unfolding strip_by_def by (rule sublist_order.order_trans)
qed

lemma set_strip_by: "set (strip_by P s) \<subseteq> set s"
  using strip_by_sublist[of P s] by (meson set_mono_sublist)

lemma dropWhile_id: "s = [] \<or> \<not> P (hd s) \<Longrightarrow> dropWhile P s = s"
  by (cases s) simp_all

lemma strip_by_id: "s = [] \<or> (\<not> P (hd s) \<and> \<not> P (last s)) \<Longrightarrow> strip_by P s = s"
  by (cases "s = []") (auto simp: strip_by_def dropWhile_id hd_rev)

lemma strip_by_ends:
  assumes "strip_by P s \<noteq> []"
  shows "\<not> P (hd (strip_by P s)) \<and> \<not> P (last (strip_by P s))"
proof -
  let ?d = "dropWhile P s"
  let ?e = "dropWhile P (rev ?d)"
  from assms have ne: "?e \<noteq> []" unfolding strip_by_def by (simp only: rev_is_Nil_conv not_False_eq_True)
  have dne: "?d \<noteq> []"
  proof
    assume "?d = []"
    then have "?e = []" by (simp only: rev.simps dropWhile.simps)
    with ne show False by simp
  qed
  have l: "\<not> P (hd ?e)" using ne by (rule hd_dropWhile)
  have "\<not> P (hd ?d)" using dne by (rule hd_dropWhile)
  then have "\<not> P (last (rev ?d))" using dne by (simp add: last_rev)
  moreover have "last ?e = last (rev ?d)" using ne
    by (metis last_appendR takeWhile_dropWhile_id)
  ultimately have "\<not> P (last ?e)" by simp
  with l ne show ?thesis by (simp add: strip_by_def hd_rev last_rev)
qed

lemma re_sub_runs_id: "\<forall>c\<in>set s. \<not> P c \<Longrightarrow> re_sub_runs P s = s"
  by (induction s) auto

lemma re_sub_runs_all: "s \<noteq> [] \<Longrightarrow> \<forall>c\<in>set s. P c \<Longrightarrow> re_sub_runs P s = ''_''"
proof (cases s)
  case Nil
  assume "s \<noteq> []" with Nil show ?thesis by simp
next
  case (Cons c cs)
  assume "\<forall>c\<in>set s. P c"
  with Cons have "P c" and "dropWhile P cs = []" by simp_all
  with Cons show ?thesis by (simp only: re_sub_runs.simps if_True)
qed

lemma set_re_sub_runs: "set (re_sub_runs P s) \<subseteq> insert CHR ''_'' {c \<in> set s. \<not> P c}"
proof (induction P s rule: re_sub_runs.induct)
  case (1 P) show ?case by simp
next
  case (2 P c cs)
  show ?case
  proof (cases "P c")
    case True
    with 2 have "set (re_sub_runs P (dropWhile P cs)) \<subseteq> insert CHR ''_'' {c \<in> set (dropWhile P cs). \<not> P c}" by simp
    moreover have "set (dropWhile P cs) \<subseteq> set cs" by (auto dest: set_dropWhileD)
    ultimately show ?thesis using True by auto
  next
    case False
    with 2 show ?thesis by auto
  qed
qed

lemma hd_re_sub_runs: "s \<noteq> [] \<Longrightarrow> \<not> P (hd s) \<Longrightarrow> hd (re_sub_runs P s) = hd s"
  by (cases s) auto

lemma re_sub_runs_Nil_iff: "re_sub_runs P s = [] \<longleftrightarrow> s = []"
  by (cases s) auto

lemma no_double_sub: "no_double (re_sub_runs is_underscore s)"
proof (induction is_underscore s rule: re_sub_runs.induct)
  case 1 show ?case by (simp add: no_double_def)
next
  case (2 c cs)
  show ?case
  proof (cases "is_underscore c")
    case True
    let ?d = "dropWhile is_underscore cs"
    from 2 True have ih: "no_double (re_sub_runs is_underscore ?d)" by simp
    have "\<not> prefix ''_'' (re_sub_runs is_underscore ?d)"
    proof (cases "?d = []")
      case True
      then have "re_sub_runs is_underscore ?d = []" by (simp only: re_sub_runs.simps)
      then show ?thesis by (simp only: prefix_Nil) simp
    next
      case False
      then have "\<not> is_underscore (hd ?d)" by (rule hd_dropWhile)
      with False have "hd (re_sub_runs is_underscore ?d) = hd ?d" "\<not> is_underscore (hd ?d)"
        by (simp_all add: hd_re_sub_runs)
      then show ?thesis
        by (cases "re_sub_runs is_underscore ?d") (auto simp: is_underscore_def)
    qed
    with ih True show ?thesis
      by (simp add: no_double_def sublist_Cons_right)
  next
    case False
    with 2 show ?thesis
      by (auto simp: no_double_def sublist_Cons_right is_underscore_def)
  qed
qed

lemma no_double_id: "no_double s \<Longrightarrow> re_sub_runs is_underscore s = s"
proof (induction s)
  case Nil show ?case by simp
next
  case (Cons c cs)
  from Cons.prems have nd: "no_double cs" and np: "\<not> prefix ''__'' (c # cs)"
    by (auto simp: no_double_def sublist_Cons_right)
  show ?case
  proof (cases "is_underscore c")
    case True
    with np have "cs = [] \<or> \<not> is_underscore (hd cs)"
      by (cases cs) (auto simp: is_underscore_def)
    then have "dropWhile is_underscore cs = cs" by (rule dropWhile_id)
    with True Cons.IH[OF nd] show ?thesis
      by (simp only: re_sub_runs.simps if_True) (simp add: is_underscore_def)
  next
    case False
    with Cons.IH[OF nd] show ?thesis by simp
  qed
qed

lemma no_double_strip: "no_double s \<Longrightarrow> no_double (strip_by P s)"
  unfolding no_double_def using strip_by_sublist[of P s]
  by (meson sublist_order.order_trans)

lemma slug_char_lower: "slug_char c \<Longrightarrow> lower_char c = c"
  by (auto simp: slug_char_def lower_char_def Let_def)

lemma slug_char_not_space: "slug_char c \<Longrightarrow> \<not> is_space c"
  by (auto simp: slug_char_def is_space_def Let_def)

lemma slug_underscore: "is_underscore c \<Longrightarrow> slug_char c"
  by (simp add: is_underscore_def slug_char_def)

lemma canonical_question: "canonical ''question''"
  by (simp add: canonical_def slug_char_def no_double_def is_underscore_def sublist_Cons_right)

lemma slugify_canonical: "canonical (slugify s)"
proof -
  let ?a = "re_sub_runs (\<lambda>c. \<not> slug_char c) (lower (strip s))"
  let ?b = "re_sub_runs is_underscore ?a"
  let ?t = "strip_by is_underscore ?b"
  have sl: "slugify s = (if ?t = [] then ''question'' else ?t)"
    by (simp add: slugify_def Let_def)
  show ?thesis
  proof (cases "?t = []")
    case True with sl canonical_question show ?thesis by simp
  next
    case False
    have "\<forall>c\<in>set ?a. slug_char c"
      using set_re_sub_runs[of "\<lambda>c. \<not> slug_char c" "lower (strip s)"]
      by (auto simp: slug_char_def)
    then have "\<forall>c\<in>set ?b. slug_char c"
      using set_re_sub_runs[of is_underscore ?a] by (auto simp: slug_char_def)
    then have "\<forall>c\<in>set ?t. slug_char c"
      using set_strip_by[of is_underscore ?b] by auto
    moreover have "no_double ?t" by (rule no_double_strip[OF no_double_sub])
    moreover have "\<not> is_underscore (hd ?t) \<and> \<not> is_underscore (last ?t)"
      using False by (rule strip_by_ends)
    ultimately show ?thesis using False sl by (simp add: canonical_def)
  qed
qed

lemma slugify_fixed: "canonical t \<Longrightarrow> slugify t = t"
proof -
  assume c: "canonical t"
  then have ne: "t \<noteq> []" and sc: "\<forall>c\<in>set t. slug_char c" and nd: "no_double t"
    and e: "\<not> is_underscore (hd t) \<and> \<not> is_underscore (last t)"
    by (auto simp: canonical_def)
  have "\<not> is_space (hd t) \<and> \<not> is_space (last t)"
    using ne sc slug_char_not_space by auto
  then have 1: "strip t = t" by (simp add: strip_def strip_by_id)
  have 2: "lower t = t" using sc by (simp add: lower_def slug_char_lower map_idI)
  have 3: "re_sub_runs (\<lambda>c. \<not> slug_char c) t = t" using sc by (simp add: re_sub_runs_id)
  have 4: "re_sub_runs is_underscore t = t" using nd by (rule no_double_id)
  have 5: "strip_by is_underscore t = t" using e by (simp add: strip_by_id)
  show ?thesis using ne by (simp add: slugify_def 1 2 3 4 5)
qed

lemma us_iff: "(c = CHR ''_'') = (of_char c = (95::nat))"
proof
  assume "c = CHR ''_''" then show "of_char c = (95::nat)" by simp
next
  assume "of_char c = (95::nat)"
  then have "(of_char c :: nat) = of_char CHR ''_''" by simp
  then show "c = CHR ''_''" by (simp only: of_char_eq_iff)
qed

lemma of_char_lower_char:
  "(of_char (lower_char c) :: nat) =
     (let n = of_char c in if (65 \<le> n \<and> n \<le> 90) \<or> (192 \<le> n \<and> n \<le> 222 \<and> n \<noteq> 215) then n + 32 else n)"
  by (simp add: lower_char_def Let_def)

lemma lower_char_slug: "slug_char (lower_char c) \<Longrightarrow> ascii_alnum c \<or> is_underscore c"
  unfolding slug_char_def is_underscore_def us_iff of_char_lower_char ascii_alnum_def Let_def
  by (auto split: if_splits)

lemma strip_by_all:
  assumes "\<forall>c\<in>set s. P c"
  shows "strip_by P s = []"
proof -
  from assms have "dropWhile P s = []" by simp
  then show ?thesis unfolding strip_by_def by (simp only: rev.simps dropWhile.simps)
qed

lemma slugify_non_alnum:
  assumes "\<forall>c\<in>set s. \<not> ascii_alnum c"
  shows "slugify s = ''question''"
proof -
  let ?l = "lower (strip s)"
  let ?a = "re_sub_runs (\<lambda>c. \<not> slug_char c) ?l"
  let ?b = "re_sub_runs is_underscore ?a"
  have "set (strip s) \<subseteq> set s" unfolding strip_def by (rule set_strip_by)
  with assms have l: "\<forall>c\<in>set ?l. slug_char c \<longrightarrow> is_underscore c"
  proof (intro ballI impI)
    fix c assume "c \<in> set ?l" and sc: "slug_char c"
    then obtain c0 where c0: "c0 \<in> set (strip s)" and c: "c = lower_char c0"
      by (auto simp: lower_def)
    with \<open>set (strip s) \<subseteq> set s\<close> assms have "\<not> ascii_alnum c0" by auto
    with sc c lower_char_slug[of c0] have u: "is_underscore c0" by auto
    then have "lower_char c0 = c0" by (simp add: slug_char_lower slug_underscore)
    with u c show "is_underscore c" by simp
  qed
  have "\<forall>c\<in>set ?a. is_underscore c"
    using set_re_sub_runs[of "\<lambda>c. \<not> slug_char c" ?l] l by (auto simp: is_underscore_def)
  then have "\<forall>c\<in>set ?b. is_underscore c"
    using set_re_sub_runs[of is_underscore ?a] by (auto simp: is_underscore_def)
  then have "strip_by is_underscore ?b = []" by (rule strip_by_all)
  then show ?thesis by (simp add: slugify_def)
qed

lemma slugify_not_Nil: "slugify s \<noteq> []"
  using slugify_canonical[of s] by (simp add: canonical_def)

lemma digit_char_slug: "d < 10 \<Longrightarrow> slug_char (digit_char d) \<and> \<not> is_underscore (digit_char d)"
  unfolding slug_char_def is_underscore_def us_iff Let_def digit_char_def
  by (simp add: of_char_of)

lemma str_nat_digits: "\<forall>c\<in>set (str_nat n). slug_char c \<and> \<not> is_underscore c"
proof (induction n rule: str_nat.induct)
  case (1 n)
  show ?case
  proof (cases "n < 10")
    case True
    then show ?thesis by (subst str_nat.simps) (simp add: digit_char_slug)
  next
    case False
    with 1 show ?thesis by (subst str_nat.simps) (simp add: digit_char_slug)
  qed
qed

lemma no_underscore_no_double: "\<forall>c\<in>set t. \<not> is_underscore c \<Longrightarrow> no_double t"
  unfolding no_double_def
proof
  assume a: "\<forall>c\<in>set t. \<not> is_underscore c" and sl: "sublist ''__'' t"
  from sl have "set ''__'' \<subseteq> set t" by (rule set_mono_sublist)
  with a show False by (auto simp: is_underscore_def)
qed

lemma canonical_q: "canonical (''q'' @ str_nat i)"
proof -
  have q: "slug_char CHR ''q'' \<and> \<not> is_underscore CHR ''q''"
    by (simp add: slug_char_def is_underscore_def)
  with str_nat_digits[of i] have all: "\<forall>c\<in>set (''q'' @ str_nat i). slug_char c \<and> \<not> is_underscore c"
    by auto
  then have "no_double (''q'' @ str_nat i)" by (simp add: no_underscore_no_double)
  moreover have "last (''q'' @ str_nat i) \<in> set (''q'' @ str_nat i)" by (rule last_in_set) simp
  ultimately show ?thesis using all q unfolding canonical_def by auto
qed

subsection \<open>Properties of key resolution\<close>

lemma resolve_key_eq: "resolve_key i k = (if k = [] then ''q'' @ str_nat i else slugify k)"
  using slugify_fixed[OF canonical_q, of i] by (simp add: resolve_key_def)

lemma legacy_key: "\<not> new_format d \<Longrightarrow>
  e_key (read_entry i d) =
    (let k = strip (py_str (py_or (dict_get d ''key'') (JStr '''')))
     in if k = [] then slugify (e_label (read_entry i d)) else k)"
  by (simp add: read_entry_def Let_def slugify_not_Nil)

lemma empty_key_new_format: "e_key (read_entry i d) = [] \<Longrightarrow> new_format d"
  by (rule ccontr) (simp add: legacy_key Let_def slugify_not_Nil split: if_splits)

subsection \<open>Properties of the validation loop\<close>

lemma validate_step_eq:
  "validate_step float_ok date_ok frm q (answers, errors) =
     (case question_error float_ok date_ok frm q of
        Some msg \<Rightarrow> (answers, errors @ [msg])
      | None \<Rightarrow> (answers(q_key q \<mapsto> submitted_value q frm), errors))"
  by (simp add: validate_step_def question_error_def Let_def)

lemma run_steps_Nil: "run_steps f d frm [] st = st"
  by (simp add: run_steps_def)

lemma run_steps_Cons: "run_steps f d frm (q # qs) st = run_steps f d frm qs (validate_step f d frm q st)"
  by (simp add: run_steps_def)


lemma validate_run: "validate f d frm qs = run_steps f d frm qs (Map.empty, [])"
  by (simp add: validate_def run_steps_def)

lemma run_steps_errors:
  "snd (run_steps f d frm qs (a, e)) = e @ List.map_filter (question_error f d frm) qs"
proof (induction qs arbitrary: a e)
  case Nil show ?case by (simp add: run_steps_Nil map_filter_simps)
next
  case (Cons q qs)
  show ?case
    by (cases "question_error f d frm q")
       (simp_all add: run_steps_Cons validate_step_eq Cons.IH map_filter_simps)
qed


lemma run_steps_snoc:
  "run_steps f d frm (qs @ [q]) st = validate_step f d frm q (run_steps f d frm qs st)"
  by (simp add: run_steps_def)

lemma run_steps_dom:
  "dom (fst (run_steps f d frm qs (a, e))) =
     dom a \<union> {q_key q |q. q \<in> set qs \<and> question_error f d frm q = None}"
proof (induction qs rule: rev_induct)
  case Nil show ?case by (simp add: run_steps_Nil)
next
  case (snoc q qs)
  obtain a' e' where st: "run_steps f d frm qs (a, e) = (a', e')" by (cases "run_steps f d frm qs (a, e)")
  with snoc have ih: "dom a' = dom a \<union> {q_key q |q. q \<in> set qs \<and> question_error f d frm q = None}"
    by simp
  show ?case
  proof (cases "question_error f d frm q")
    case None
    then have "dom (fst (run_steps f d frm (qs @ [q]) (a, e))) = insert (q_key q) (dom a')"
      by (simp add: run_steps_snoc st validate_step_eq)
    with ih None show ?thesis by auto
  next
    case (Some m)
    then have "dom (fst (run_steps f d frm (qs @ [q]) (a, e))) = dom a'"
      by (simp add: run_steps_snoc st validate_step_eq)
    with ih Some show ?thesis by auto
  qed
qed

lemma map_filter_Nil_iff: "List.map_filter g xs = [] \<longleftrightarrow> (\<forall>x\<in>set xs. g x = None)"
  by (induction xs) (auto simp: map_filter_simps split: option.splits)

lemma validate_errors:
  "snd (validate f d frm qs) = List.map_filter (question_error f d frm) qs"
  by (simp add: validate_run run_steps_errors)

lemma validate_dom:
  "dom (fst (validate f d frm qs)) = {q_key q |q. q \<in> set qs \<and> question_error f d frm q = None}"
  by (simp add: validate_run run_steps_dom)

lemma validate_no_error_dom:
  assumes "snd (validate f d frm qs) = []"
  shows "dom (fst (validate f d frm qs)) = set (map q_key qs)"
proof -
  from assms have "\<forall>q\<in>set qs. question_error f d frm q = None"
    by (simp add: validate_errors map_filter_Nil_iff)
  then show ?thesis by (auto simp: validate_dom)
qed



lemma save_row:
  "foldl (\<lambda>row q. row(q_key q \<mapsto> g (q_key q))) r qs k =
     (if k \<in> set (map q_key qs) then Some (g k) else r k)"
  by (induction qs rule: rev_induct) auto

lemma save_answers_eq:
  "\<exists>line. save_answers today cu res qid questions answers =
      res(qid \<mapsto> (case res qid of
                     None \<Rightarrow> [[''date'', ''user_id'', ''user_name'', ''user_email''] @ map q_key questions]
                   | Some rows \<Rightarrow> rows) @ [line])
    \<and> length line = 4 + length questions
    \<and> drop 4 line = map (\<lambda>q. case answers (q_key q) of None \<Rightarrow> '''' | Some v \<Rightarrow> v) questions"
proof -
  let ?g = "\<lambda>k. case answers k of None \<Rightarrow> '''' | Some v \<Rightarrow> v"
  let ?meta = "[''date'' \<mapsto> today, ''user_id'' \<mapsto> str_int (user_id cu),
                ''user_name'' \<mapsto> first_name cu, ''user_email'' \<mapsto> email cu]"
  let ?row = "foldl (\<lambda>row q. row(q_key q \<mapsto> ?g (q_key q))) ?meta questions"
  let ?fields = "[''date'', ''user_id'', ''user_name'', ''user_email''] @ map q_key questions"
  let ?line = "map (\<lambda>f. case ?row f of None \<Rightarrow> '''' | Some v \<Rightarrow> v) ?fields"
  have s: "save_answers today cu res qid questions answers =
      res(qid \<mapsto> (case res qid of None \<Rightarrow> [?fields] | Some rows \<Rightarrow> rows) @ [?line])"
    by (simp only: save_answers_def Let_def)
  have "?row (q_key q) = Some (?g (q_key q))" if "q \<in> set questions" for q
    using that save_row[where g = ?g and r = ?meta and qs = questions and k = "q_key q"] by simp
  then have "map (\<lambda>f. case ?row f of None \<Rightarrow> '''' | Some v \<Rightarrow> v) (map q_key questions)
      = map (\<lambda>q. ?g (q_key q)) questions" by simp
  then have d: "drop 4 ?line = map (\<lambda>q. ?g (q_key q)) questions" by simp
  have l: "length ?line = 4 + length questions" by simp
  from s d l show ?thesis by blast
qed

lemma msg_differ: "msg_not_found qid \<noteq> msg_unreadable"
  by (simp add: msg_not_found_def msg_unreadable_def)





lemma strip_fixed_ends:
  assumes "strip a = a" and "a \<noteq> []"
  shows "\<not> is_space (hd a) \<and> \<not> is_space (last a)"
proof -
  from assms have "strip_by is_space a \<noteq> []" by (simp add: strip_def)
  from strip_by_ends[OF this] assms(1) show ?thesis by (simp add: strip_def)
qed

lemma strip_pad:
  assumes "\<forall>c\<in>set p. is_space c" and "\<forall>c\<in>set s. is_space c" and "strip a = a" and "a \<noteq> []"
  shows "strip (p @ a @ s) = a"
proof -
  from strip_fixed_ends[OF assms(3,4)] have h: "\<not> is_space (hd a)" and l: "\<not> is_space (last a)"
    by simp_all
  from assms(1) have "dropWhile is_space (p @ a @ s) = dropWhile is_space (a @ s)"
    by (simp add: dropWhile_append2)
  also from h assms(4) have "\<dots> = a @ s" by (cases a) simp_all
  finally have 1: "dropWhile is_space (p @ a @ s) = a @ s" .
  have "dropWhile is_space (rev s @ rev a) = dropWhile is_space (rev a)"
    by (rule dropWhile_append2) (use assms(2) in simp)
  also from l assms(4) have "\<dots> = rev a" by (cases "rev a") (simp_all add: hd_rev[symmetric])
  finally have 2: "dropWhile is_space (rev (a @ s)) = rev a" by simp
  show ?thesis unfolding strip_def strip_by_def by (simp only: 1 2 rev_rev_ident)
qed

lemma split_on_none: "sep \<notin> set a \<Longrightarrow> split_on sep a = [a]"
  by (induction a) auto

lemma split_on_append:
  "sep \<notin> set a \<Longrightarrow> split_on sep (a @ sep # rest) = a # split_on sep rest"
  by (induction a) auto

lemma split_join:
  assumes "\<forall>s\<in>set sel. CHR ''|'' \<notin> set s" and "sel \<noteq> []"
    and "p = [] \<or> p = '' ''"
  shows "length (split_on CHR ''|'' (p @ join '' | '' sel)) = length sel
          \<and> (\<forall>i<length sel. \<exists>l r. split_on CHR ''|'' (p @ join '' | '' sel) ! i = l @ sel ! i @ r
                 \<and> (\<forall>c\<in>set l. is_space c) \<and> (\<forall>c\<in>set r. is_space c))"
  using assms
proof (induction "'' | ''" sel arbitrary: p rule: join.induct)
  case 1 then show ?case by simp
next
  case (2 x)
  have sp: "is_space CHR '' ''" by (simp add: is_space_def)
  from 2 have "CHR ''|'' \<notin> set (p @ x)" by auto
  then have s: "split_on CHR ''|'' (p @ join '' | '' [x]) = [p @ x]"
    by (simp add: split_on_none)
  have pall: "\<forall>c\<in>set p. is_space c" using 2(3) sp by auto
  have "\<exists>l r. [p @ x] ! i = l @ [x] ! i @ r \<and> (\<forall>c\<in>set l. is_space c) \<and> (\<forall>c\<in>set r. is_space c)"
    if "i < length [x]" for i
  proof -
    from that have "i = 0" by simp
    then have "[p @ x] ! i = p @ [x] ! i @ []" by simp
    with pall show ?thesis by (intro exI[of _ p] exI[of _ "[]"]) simp
  qed
  with s show ?case by (simp only:) simp
next
  case (3 x y r)
  have sp: "is_space CHR '' ''" by (simp add: is_space_def)
  have pall: "\<forall>c\<in>set p. is_space c" using 3(4) sp by auto
  from 3 have np: "CHR ''|'' \<notin> set (p @ x @ '' '')" by auto
  let ?ws = "split_on CHR ''|'' ('' '' @ join '' | '' (y # r))"
  have "p @ join '' | '' (x # y # r) = (p @ x @ '' '') @ CHR ''|'' # ('' '' @ join '' | '' (y # r))"
    by simp
  then have s: "split_on CHR ''|'' (p @ join '' | '' (x # y # r)) = (p @ x @ '' '') # ?ws"
    using split_on_append[OF np] by simp
  from 3(2) have "\<forall>s\<in>set (y # r). CHR ''|'' \<notin> set s" by simp
  from "3.hyps"[OF this, of "'' ''"] have
    ws: "length ?ws = length (y # r)"
      "\<forall>i<length (y # r). \<exists>l r'. ?ws ! i = l @ (y # r) ! i @ r' \<and> (\<forall>c\<in>set l. is_space c) \<and> (\<forall>c\<in>set r'. is_space c)"
    by auto
  have "\<exists>l r'. ((p @ x @ '' '') # ?ws) ! i = l @ (x # y # r) ! i @ r'
          \<and> (\<forall>c\<in>set l. is_space c) \<and> (\<forall>c\<in>set r'. is_space c)"
    if "i < length (x # y # r)" for i
  proof (cases i)
    case 0
    then have "((p @ x @ '' '') # ?ws) ! i = p @ (x # y # r) ! i @ '' ''" by simp
    with pall sp show ?thesis by (intro exI[of _ p] exI[of _ "'' ''"]) simp
  next
    case (Suc k)
    with that have "k < length (y # r)" by simp
    with ws(2) Suc show ?thesis by simp
  qed
  with ws(1) show ?case by (simp only: s) simp
qed

lemma trimmed_nonempty_id:
  assumes "\<forall>s\<in>set sel. strip s = s \<and> s \<noteq> []"
  shows "trimmed_nonempty sel = sel"
proof -
  from assms have "map strip sel = sel" by (simp add: map_idI)
  with assms show ?thesis by (simp add: trimmed_nonempty_def)
qed

lemma trimmed_split_join:
  assumes "\<forall>s\<in>set sel. strip s = s \<and> s \<noteq> [] \<and> CHR ''|'' \<notin> set s" and "sel \<noteq> []"
  shows "trimmed_nonempty (split_on CHR ''|'' (join '' | '' sel)) = sel"
proof -
  from assms have "\<forall>s\<in>set sel. CHR ''|'' \<notin> set s" by simp
  define ws where "ws = split_on CHR ''|'' (join '' | '' sel)"
  from split_join[OF \<open>\<forall>s\<in>set sel. CHR ''|'' \<notin> set s\<close> assms(2), of "[]"] have
    ws: "split_on CHR ''|'' (join '' | '' sel) = ws" "length ws = length sel"
      "\<forall>i<length sel. \<exists>l r. ws ! i = l @ sel ! i @ r \<and> (\<forall>c\<in>set l. is_space c) \<and> (\<forall>c\<in>set r. is_space c)"
    by (simp_all add: ws_def)
  have "map strip ws = sel"
  proof (rule nth_equalityI)
    show "length (map strip ws) = length sel" using ws(2) by simp
  next
    fix i assume "i < length (map strip ws)"
    with ws(2) have i: "i < length sel" by simp
    with ws(3) obtain l r where lr: "ws ! i = l @ sel ! i @ r" "\<forall>c\<in>set l. is_space c" "\<forall>c\<in>set r. is_space c"
      by blast
    from i assms(1) have "strip (sel ! i) = sel ! i" "sel ! i \<noteq> []" by simp_all
    with lr have "strip (ws ! i) = sel ! i" by (simp add: strip_pad)
    with i ws(2) show "map strip ws ! i = sel ! i" by simp
  qed
  with assms(1) ws(1) show ?thesis by (simp add: trimmed_nonempty_def)
qed

lemma join_ends:
  assumes "sel \<noteq> []" and "\<forall>s\<in>set sel. s \<noteq> []"
  shows "join sep sel \<noteq> [] \<and> hd (join sep sel) = hd (hd sel) \<and> last (join sep sel) = last (last sel)"
  using assms
proof (induction sep sel rule: join.induct)
  case (1 sep) then show ?case by simp
next
  case (2 sep x) then show ?case by simp
next
  case (3 sep x y r)
  then have "join sep (y # r) \<noteq> []" "last (join sep (y # r)) = last (last (y # r))" by simp_all
  with 3(3) show ?case by simp
qed

text \<open>
  The round trip of a multi answer where it holds: a non-empty selection of
  options, when every option is trimmed, non-empty and free of the character
  \<^verbatim>\<open>|\<close>, is stored as the selections joined by \<^verbatim>\<open>" | "\<close>, and splitting the stored
  string on \<^verbatim>\<open>|\<close> and trimming the parts gives the selections back.
\<close>

lemma multi_round_trip_without_delimiter:
  assumes "q_type q = ''multi''" and "q_options q = Some opts"
    and "form_getlist frm (q_key q @ ''[]'') = sel" and "sel \<noteq> []"
    and "\<forall>s\<in>set sel. s \<in> set opts"
    and "\<forall>s\<in>set opts. strip s = s \<and> s \<noteq> [] \<and> CHR ''|'' \<notin> set s"
  shows "submitted_value q frm = join '' | '' sel
       \<and> trimmed_nonempty (split_on CHR ''|'' (join '' | '' sel)) = sel
       \<and> validate_step float_ok date_ok frm q (answers, errors) =
           (answers(q_key q \<mapsto> join '' | '' sel), errors)"
proof -
  from assms(5,6) have good: "\<forall>s\<in>set sel. strip s = s \<and> s \<noteq> [] \<and> CHR ''|'' \<notin> set s" by blast
  then have t: "trimmed_nonempty sel = sel" by (simp add: trimmed_nonempty_id)
  from good assms(4) have je: "join '' | '' sel \<noteq> []" "hd (join '' | '' sel) = hd (hd sel)"
     "last (join '' | '' sel) = last (last sel)" by (simp_all add: join_ends)
  from assms(4) good have "strip (hd sel) = hd sel" "hd sel \<noteq> []" "strip (last sel) = last sel" "last sel \<noteq> []"
    by simp_all
  then have "\<not> is_space (hd (hd sel))" "\<not> is_space (last (last sel))"
    using strip_fixed_ends by blast+
  with je have "strip (join '' | '' sel) = join '' | '' sel"
    by (simp add: strip_def strip_by_id)
  with assms(1,3) t have v: "submitted_value q frm = join '' | '' sel"
    by (simp add: submitted_value_def)
  from good assms(4) have r: "trimmed_nonempty (split_on CHR ''|'' (join '' | '' sel)) = sel"
    by (rule trimmed_split_join)
  from assms(5) have "filter (\<lambda>v. v \<notin> set opts) sel = []" by (simp add: filter_empty_conv)
  with assms(1,2) v r je(1) have "question_error float_ok date_ok frm q = None"
    by (simp add: question_error_def options_or_empty_def)
  with v r show ?thesis by (simp add: validate_step_eq)
qed

subsection \<open>Properties of the normalisation loop\<close>

lemma label_indep: "e_label (read_entry i d) = e_label (read_entry 0 d)"
  by (simp add: read_entry_def Let_def)

lemma norm_step_eq:
  "norm_step i q (out, used) =
     (case q of
        JDict d \<Rightarrow> if e_label (read_entry i d) = [] then (out, used)
                   else (out @ [emit i d used], q_key (emit i d used) # used)
      | _ \<Rightarrow> (out, used))"
  by (cases q) (simp_all add: norm_step_def emit_def Let_def)

lemma norm_step_valid:
  "norm_step i q (out, used) =
     (if valid_entry q
      then (case q of JDict d \<Rightarrow> (out @ [emit i d used], q_key (emit i d used) # used) | _ \<Rightarrow> (out, used))
      else (out, used))"
  by (cases q) (simp_all add: norm_step_eq valid_entry_def label_indep[of i])

lemma norm_loop_snoc:
  "norm_loop i (qs @ [q]) st = norm_step (i + length qs) q (norm_loop i qs st)"
  by (induction qs arbitrary: i st) simp_all

lemma normalize_source: "normalize_questions raw = fst (norm_loop 1 (source_list raw) ([], []))"
  by (cases raw) (simp_all add: normalize_questions_def source_list_def split: json.splits)

lemma q_id_emit: "q_id (emit i d u) = i"
  by (simp add: emit_def Let_def)

lemma used_keys_rev:
  "norm_loop 1 qs ([], []) = (out, used) \<Longrightarrow> used = rev (map q_key out)"
proof (induction qs arbitrary: out used rule: rev_induct)
  case Nil then show ?case by simp
next
  case (snoc q qs)
  obtain o1 u1 where st: "norm_loop 1 qs ([], []) = (o1, u1)" by (cases "norm_loop 1 qs ([], [])")
  from snoc.IH[OF st] have u1: "u1 = rev (map q_key o1)" .
  from snoc.prems st have "norm_step (1 + length qs) q (o1, u1) = (out, used)"
    by (simp add: norm_loop_snoc)
  with u1 show ?case
    by (cases q) (auto simp: norm_step_eq split: if_splits)
qed

lemma ids_positions:
  "norm_loop 1 qs ([], []) = (out, used) \<Longrightarrow>
     map q_id out = filter (\<lambda>i. valid_entry (qs ! (i - 1))) [1..<Suc (length qs)]"
proof (induction qs arbitrary: out used rule: rev_induct)
  case Nil then show ?case by simp
next
  case (snoc q qs)
  obtain o1 u1 where st: "norm_loop 1 qs ([], []) = (o1, u1)" by (cases "norm_loop 1 qs ([], [])")
  from snoc.IH[OF st] have ih: "map q_id o1 = filter (\<lambda>i. valid_entry (qs ! (i - 1))) [1..<Suc (length qs)]" .
  have old: "filter (\<lambda>i. valid_entry ((qs @ [q]) ! (i - 1))) [1..<Suc (length qs)]
      = filter (\<lambda>i. valid_entry (qs ! (i - 1))) [1..<Suc (length qs)]"
    by (rule filter_cong) (auto simp: nth_append)
  have split: "[1..<Suc (length (qs @ [q]))] = [1..<Suc (length qs)] @ [Suc (length qs)]"
    by simp
  from snoc.prems st have step: "norm_step (Suc (length qs)) q (o1, u1) = (out, used)"
    by (simp add: norm_loop_snoc)
  show ?case
  proof (cases "valid_entry q")
    case True
    then obtain d where d: "q = JDict d" by (cases q) (simp_all add: valid_entry_def)
    with step True have "out = o1 @ [emit (Suc (length qs)) d u1]"
      by (auto simp: norm_step_valid)
    with ih old True show ?thesis
      by (simp only: split filter_append map_append) (simp add: q_id_emit)
  next
    case False
    with step have "out = o1" by (simp add: norm_step_valid)
    with ih old False show ?thesis
      by (simp only: split filter_append map_append) simp
  qed
qed

lemma ids_bound:
  assumes "norm_loop 1 qs ([], []) = (out, used)" and "x \<in> set out"
  shows "1 \<le> q_id x \<and> q_id x \<le> length qs \<and> valid_entry (qs ! (q_id x - 1))"
proof -
  from assms(2) have "q_id x \<in> set (map q_id out)" by simp
  with ids_positions[OF assms(1)] show ?thesis by auto
qed

lemma records_emitted:
  "norm_loop 1 qs ([], []) = (out, used) \<Longrightarrow> j < length out \<Longrightarrow>
     \<exists>d. qs ! (q_id (out ! j) - 1) = JDict d
        \<and> out ! j = emit (q_id (out ! j)) d (rev (map q_key (take j out)))"
proof (induction qs arbitrary: out used j rule: rev_induct)
  case Nil then show ?case by simp
next
  case (snoc q qs)
  obtain o1 u1 where st: "norm_loop 1 qs ([], []) = (o1, u1)" by (cases "norm_loop 1 qs ([], [])")
  have u1: "u1 = rev (map q_key o1)" by (rule used_keys_rev[OF st])
  from snoc.prems(1) st have step: "norm_step (Suc (length qs)) q (o1, u1) = (out, used)"
    by (simp add: norm_loop_snoc)
  have old: "\<exists>d. (qs @ [q]) ! (q_id (o1 ! j) - 1) = JDict d
        \<and> o1 ! j = emit (q_id (o1 ! j)) d (rev (map q_key (take j o1)))" if "j < length o1" for j
  proof -
    from that have "o1 ! j \<in> set o1" by simp
    from ids_bound[OF st this] have "q_id (o1 ! j) - 1 < length qs" by auto
    then have "(qs @ [q]) ! (q_id (o1 ! j) - 1) = qs ! (q_id (o1 ! j) - 1)" by (simp add: nth_append)
    with snoc.IH[OF st that] show ?thesis by simp
  qed
  show ?case
  proof (cases "valid_entry q")
    case False
    with step have "out = o1" by (simp add: norm_step_valid)
    with old snoc.prems(2) show ?thesis by simp
  next
    case True
    then obtain d where d: "q = JDict d" by (cases q) (simp_all add: valid_entry_def)
    with step True have out: "out = o1 @ [emit (Suc (length qs)) d u1]"
      by (auto simp: norm_step_valid)
    show ?thesis
    proof (cases "j < length o1")
      case True
      with old[OF True] out show ?thesis by (simp add: nth_append)
    next
      case False
      with snoc.prems(2) out have j: "j = length o1" by simp
      with out u1 d show ?thesis by (simp add: q_id_emit)
    qed
  qed
qed

lemma dedup_not_in: "dedup_loop b n k u \<notin> set u"
proof (induction b n k u rule: dedup_loop.induct)
  case (1 b n k u)
  then show ?case by (subst dedup_loop.simps) simp
qed

lemma dedup_fresh: "k \<notin> set u \<Longrightarrow> dedup_loop b n k u = k"
  by (subst dedup_loop.simps) simp

lemma dedup_first:
  "k \<in> set u \<Longrightarrow>
     \<exists>m\<ge>n. dedup_loop b n k u = suffixed b m \<and> suffixed b m \<notin> set u
           \<and> (\<forall>j. n \<le> j \<and> j < m \<longrightarrow> suffixed b j \<in> set u)"
proof (induction b n k u rule: dedup_loop.induct)
  case (1 b n k u)
  from "1.prems" have unf: "dedup_loop b n k u = dedup_loop b (n + 1) (suffixed b n) u"
    by (subst dedup_loop.simps) simp
  show ?case
  proof (cases "suffixed b n \<in> set u")
    case False
    then have "dedup_loop b (n + 1) (suffixed b n) u = suffixed b n" by (rule dedup_fresh)
    with unf False show ?thesis by (intro exI[of _ n]) auto
  next
    case True
    from "1.IH"[OF "1.prems" True] obtain m where m: "n + 1 \<le> m"
      "dedup_loop b (n + 1) (suffixed b n) u = suffixed b m" "suffixed b m \<notin> set u"
      "\<forall>j. n + 1 \<le> j \<and> j < m \<longrightarrow> suffixed b j \<in> set u" by blast
    have "\<forall>j. n \<le> j \<and> j < m \<longrightarrow> suffixed b j \<in> set u"
    proof (intro allI impI)
      fix j assume j: "n \<le> j \<and> j < m"
      show "suffixed b j \<in> set u"
      proof (cases "j = n")
        case True with \<open>suffixed b n \<in> set u\<close> show ?thesis by simp
      next
        case False with j m(4) show ?thesis by simp
      qed
    qed
    with m unf show ?thesis by (intro exI[of _ m]) auto
  qed
qed

lemma canonical_slug_key: "canonical t \<Longrightarrow> slug_key t"
  by (simp add: canonical_def slug_key_def list_all_iff)

lemma resolve_key_slug: "slug_key (resolve_key i k)"
  unfolding resolve_key_def by (rule canonical_slug_key[OF slugify_canonical])

lemma suffixed_slug: "slug_key b \<Longrightarrow> slug_key (suffixed b n)"
  using str_nat_digits[of n]
  by (auto simp: slug_key_def suffixed_def list_all_iff slug_char_def)

lemma dedup_slug: "slug_key b \<Longrightarrow> slug_key (dedup_loop b n b u)"
proof (cases "b \<in> set u")
  case False
  assume "slug_key b" with False show ?thesis by (simp add: dedup_fresh)
next
  case True
  assume b: "slug_key b"
  from dedup_first[OF True, of n b] obtain m where "dedup_loop b n b u = suffixed b m" by blast
  with b show ?thesis by (simp add: suffixed_slug)
qed

lemma q_key_emit:
  "q_key (emit i d u) =
     dedup_loop (resolve_key i (e_key (read_entry i d))) 2 (resolve_key i (e_key (read_entry i d))) u"
  by (simp add: emit_def Let_def)

lemma normalize_state:
  "\<exists>used. norm_loop 1 (source_list raw) ([], []) = (normalize_questions raw, used)"
  by (cases "norm_loop 1 (source_list raw) ([], [])") (simp add: normalize_source)

lemma keys_fresh:
  assumes "j < length (normalize_questions raw)"
  shows "q_key (normalize_questions raw ! j) \<notin> set (map q_key (take j (normalize_questions raw)))"
proof -
  from normalize_state obtain used where
    st: "norm_loop 1 (source_list raw) ([], []) = (normalize_questions raw, used)" by blast
  from records_emitted[OF st assms] obtain d where
    "normalize_questions raw ! j =
       emit (q_id (normalize_questions raw ! j)) d (rev (map q_key (take j (normalize_questions raw))))"
    by blast
  then have "q_key (normalize_questions raw ! j) =
      q_key (emit (q_id (normalize_questions raw ! j)) d (rev (map q_key (take j (normalize_questions raw)))))"
    by simp
  then show ?thesis
    using dedup_not_in[of _ 2 _ "rev (map q_key (take j (normalize_questions raw)))"]
    by (simp only: q_key_emit) simp
qed

lemma keys_distinct: "distinct (map q_key (normalize_questions raw))"
proof -
  let ?out = "normalize_questions raw"
  have "map q_key ?out ! i \<noteq> map q_key ?out ! j" if "i < j" "j < length ?out" for i j
  proof -
    from that have "map q_key ?out ! i = map q_key (take j ?out) ! i" by simp
    moreover from that have "i < length (map q_key (take j ?out))" by simp
    ultimately have "map q_key ?out ! i \<in> set (map q_key (take j ?out))"
      by (metis nth_mem)
    with keys_fresh[OF that(2)] that show ?thesis by auto
  qed
  then have "\<forall>i<length (map q_key ?out). \<forall>j<length (map q_key ?out).
      i \<noteq> j \<longrightarrow> map q_key ?out ! i \<noteq> map q_key ?out ! j"
    by (metis length_map nat_neq_iff)
  then show ?thesis by (simp only: distinct_conv_nth)
qed

lemma keys_slug:
  assumes "q \<in> set (normalize_questions raw)"
  shows "slug_key (q_key q)"
proof -
  from assms obtain j where j: "j < length (normalize_questions raw)" "normalize_questions raw ! j = q"
    by (auto simp: in_set_conv_nth)
  from normalize_state obtain used where
    st: "norm_loop 1 (source_list raw) ([], []) = (normalize_questions raw, used)" by blast
  from records_emitted[OF st j(1)] j(2) obtain d u where "q = emit (q_id q) d u" by auto
  then have "q_key q = q_key (emit (q_id q) d u)" by simp
  then show ?thesis by (simp only: q_key_emit) (simp add: dedup_slug resolve_key_slug)
qed

lemma keys_first_free:
  assumes "j < length (normalize_questions raw)"
  shows "\<exists>d. source_list raw ! (q_id (normalize_questions raw ! j) - 1) = JDict d \<and>
         (let q = normalize_questions raw ! j;
              base_key = resolve_key (q_id q) (e_key (read_entry (q_id q) d));
              earlier = set (map q_key (take j (normalize_questions raw)))
          in if base_key \<in> earlier
             then \<exists>n\<ge>2. q_key q = suffixed base_key n \<and> suffixed base_key n \<notin> earlier
                    \<and> (\<forall>m. 2 \<le> m \<and> m < n \<longrightarrow> suffixed base_key m \<in> earlier)
             else q_key q = base_key)"
proof -
  let ?out = "normalize_questions raw"
  let ?q = "?out ! j"
  let ?u = "rev (map q_key (take j ?out))"
  from normalize_state obtain used where
    st: "norm_loop 1 (source_list raw) ([], []) = (?out, used)" by blast
  from records_emitted[OF st assms] obtain d where
    d: "source_list raw ! (q_id ?q - 1) = JDict d" and e: "?q = emit (q_id ?q) d ?u" by blast
  let ?b = "resolve_key (q_id ?q) (e_key (read_entry (q_id ?q) d))"
  from e have "q_key ?q = q_key (emit (q_id ?q) d ?u)" by simp
  then have k: "q_key ?q = dedup_loop ?b 2 ?b ?u" by (simp only: q_key_emit)
  have "if ?b \<in> set (map q_key (take j ?out))
        then \<exists>n\<ge>2. q_key ?q = suffixed ?b n \<and> suffixed ?b n \<notin> set (map q_key (take j ?out))
               \<and> (\<forall>m. 2 \<le> m \<and> m < n \<longrightarrow> suffixed ?b m \<in> set (map q_key (take j ?out)))
        else q_key ?q = ?b"
  proof (cases "?b \<in> set (map q_key (take j ?out))")
    case True
    then have "?b \<in> set ?u" by simp
    from dedup_first[OF this, of 2 ?b] k True show ?thesis by simp
  next
    case False
    then have "?b \<notin> set ?u" by simp
    from dedup_fresh[OF this, of ?b 2] k False show ?thesis by simp
  qed
  with d show ?thesis by (simp only: Let_def) blast
qed

lemma legacy_type:
  "\<not> new_format d \<Longrightarrow>
     e_qtype (read_entry i d) = (if nonempty_list (dict_get d ''options'') then ''choice'' else ''text'')"
  by (simp add: read_entry_def Let_def nonempty_list_def split: json.splits)

lemma no_field_default:
  assumes "\<not> has_key d k"
  shows "dict_get_default d k v = v"
proof -
  from assms have "map_of d k = None" by (simp add: map_of_eq_None_iff has_key_def)
  then show ?thesis by (simp add: dict_get_default_def)
qed

lemma legacy_required:
  "\<not> new_format d \<Longrightarrow> \<not> has_key d ''required'' \<Longrightarrow> e_required (read_entry i d)"
  by (simp add: read_entry_def Let_def no_field_default truthy_def)

lemma new_required:
  "new_format d \<Longrightarrow> \<not> has_key d ''required'' \<Longrightarrow> \<not> e_required (read_entry i d)"
  by (simp add: read_entry_def Let_def no_field_default truthy_def)

lemma canonical_suffixed:
  assumes "canonical b"
  shows "canonical (suffixed b n)"
proof -
  let ?ds = "str_nat n"
  let ?t = "CHR ''_'' # ?ds"
  from assms have bne: "b \<noteq> []" and bs: "\<forall>c\<in>set b. slug_char c" and bnd: "no_double b"
    and bh: "\<not> is_underscore (hd b)" and bl: "\<not> is_underscore (last b)"
    by (simp_all add: canonical_def)
  have dne: "?ds \<noteq> []" by (rule str_nat_not_Nil)
  have dd: "\<forall>c\<in>set ?ds. slug_char c \<and> \<not> is_underscore c" by (rule str_nat_digits)
  have eq: "suffixed b n = b @ ?t" by (simp add: suffixed_def)
  have 1: "\<forall>c\<in>set (b @ ?t). slug_char c" using bs dd by (auto simp: slug_char_def)
  have 2: "\<not> is_underscore (hd (b @ ?t))" using bne bh by simp
  have "last (b @ ?t) = last ?ds" using dne by simp
  moreover have "last ?ds \<in> set ?ds" using dne by (rule last_in_set)
  ultimately have 3: "\<not> is_underscore (last (b @ ?t))" using dd by simp
  have dh: "\<not> is_underscore (hd ?ds)" using dd dne by (cases ?ds) simp_all
  have nt: "\<not> sublist ''__'' ?t"
  proof
    assume "sublist ''__'' ?t"
    then have "prefix ''__'' ?t \<or> sublist ''__'' ?ds" by (simp add: sublist_Cons_right)
    then show False
    proof
      assume "prefix ''__'' ?t"
      with dh dne show False by (cases ?ds) (simp_all add: is_underscore_def)
    next
      assume "sublist ''__'' ?ds"
      moreover have "no_double ?ds" using dd by (simp add: no_underscore_no_double)
      ultimately show False by (simp add: no_double_def)
    qed
  qed
  have 4: "no_double (b @ ?t)"
    unfolding no_double_def
  proof
    assume "sublist ''__'' (b @ ?t)"
    then consider "sublist ''__'' b" | "sublist ''__'' ?t"
      | x1 x2 where "''__'' = x1 @ x2" "suffix x1 b" "prefix x2 ?t"
      by (auto simp: sublist_append)
    then show False
    proof cases
      case 1 with bnd show False by (simp add: no_double_def)
    next
      case 2 with nt show False by simp
    next
      case 3
      from 3(1) have "x1 = [] \<and> x2 = ''__'' \<or> x1 = ''_'' \<and> x2 = ''_'' \<or> x1 = ''__'' \<and> x2 = []"
        by (auto simp: Cons_eq_append_conv)
      then show False
      proof (elim disjE conjE)
        assume "x1 = []" "x2 = ''__''"
        with 3(3) have "sublist ''__'' ?t" by (simp add: prefix_imp_sublist)
        with nt show False by simp
      next
        assume "x1 = ''_''" "x2 = ''_''"
        with 3(2) bne have "last b = CHR ''_''" by (auto simp: suffix_def)
        with bl show False by (simp add: is_underscore_def)
      next
        assume "x1 = ''__''" "x2 = []"
        with 3(2) have "sublist ''__'' b" by (simp add: suffix_imp_sublist)
        with bnd show False by (simp add: no_double_def)
      qed
    qed
  qed
  from 1 2 3 4 show ?thesis unfolding eq canonical_def by simp
qed

lemma dedup_canonical: "canonical b \<Longrightarrow> canonical (dedup_loop b n b u)"
proof (cases "b \<in> set u")
  case False
  assume "canonical b" with False show ?thesis by (simp add: dedup_fresh)
next
  case True
  assume b: "canonical b"
  from dedup_first[OF True, of n b] obtain m where "dedup_loop b n b u = suffixed b m" by blast
  with b show ?thesis by (simp add: canonical_suffixed)
qed

lemma keys_canonical:
  assumes "q \<in> set (normalize_questions raw)"
  shows "canonical (q_key q)"
proof -
  from assms obtain j where j: "j < length (normalize_questions raw)" "normalize_questions raw ! j = q"
    by (auto simp: in_set_conv_nth)
  from normalize_state obtain used where
    st: "norm_loop 1 (source_list raw) ([], []) = (normalize_questions raw, used)" by blast
  from records_emitted[OF st j(1)] j(2) obtain d u where "q = emit (q_id q) d u" by auto
  then have "q_key q = q_key (emit (q_id q) d u)" by simp
  moreover have "canonical (resolve_key (q_id q) (e_key (read_entry (q_id q) d)))"
    unfolding resolve_key_def by (rule slugify_canonical)
  ultimately show ?thesis by (simp only: q_key_emit) (rule dedup_canonical)
qed

subsection \<open>Claims about slugify\<close>

text \<open>
  Claim C10. \<open>slugify\<close> is idempotent: for every string \<open>s\<close>,
  \<open>slugify (slugify s) = slugify s\<close>. The result of \<open>slugify\<close> is non-empty, made of
  characters of \<^verbatim>\<open>[a-z0-9_]\<close>, without two adjacent underscores and without an
  underscore at either end, and \<open>slugify\<close> leaves every such string as it is.
  So the second call of \<open>slugify\<close> at line 119, on a key that is already a slug,
  returns that key.
\<close>

theorem slugify_idempotent:
  "slugify (slugify s) = slugify s \<and> resolve_key i (slugify s) = slugify s"
proof -
  have "slugify (slugify s) = slugify s" by (rule slugify_fixed[OF slugify_canonical])
  then show ?thesis by (simp add: resolve_key_def slugify_not_Nil)
qed

text \<open>
  Claim C9. For every string \<open>s\<close> none of whose characters is alphanumeric
  (\<open>ascii_alnum\<close>: a letter A-Z, a-z or a digit), \<open>slugify s\<close> is \<^verbatim>\<open>"question"\<close>, and
  \<open>slugify\<close> never returns the empty string. Consequently the positional
  fallback \<^verbatim>\<open>q{i}\<close> is taken only where no result of \<open>slugify\<close> is available: the key
  resolved at lines 117-119 is \<^verbatim>\<open>q{i}\<close> exactly when the key read from the element is
  empty, and otherwise the slug of that key; the key read is empty only for an
  element of the new format whose \<^verbatim>\<open>key\<close> field is empty after trimming (the branch
  that never calls \<open>slugify\<close>); for an element of the old format the key read is the
  trimmed \<^verbatim>\<open>key\<close> field or else \<open>slugify label\<close>, so the alternative \<^verbatim>\<open>or f"q{i}"\<close>
  of line 112 is never taken.
\<close>

theorem slugify_fallback:
  "((\<forall>c\<in>set s. \<not> ascii_alnum c) \<longrightarrow> slugify s = ''question'')
   \<and> slugify s \<noteq> []
   \<and> resolve_key i k = (if k = [] then ''q'' @ str_nat i else slugify k)
   \<and> (e_key (read_entry i d) = [] \<longrightarrow>
        new_format d \<and> strip (py_str (py_or (dict_get d ''key'') (JStr ''''))) = [])
   \<and> (\<not> new_format d' \<longrightarrow>
        e_key (read_entry i d') =
          (let k' = strip (py_str (py_or (dict_get d' ''key'') (JStr '''')))
           in if k' = [] then slugify (e_label (read_entry i d')) else k'))"
proof (intro conjI impI)
  assume "\<forall>c\<in>set s. \<not> ascii_alnum c"
  then show "slugify s = ''question''" by (rule slugify_non_alnum)
next
  show "slugify s \<noteq> []" by (rule slugify_not_Nil)
next
  show "resolve_key i k = (if k = [] then ''q'' @ str_nat i else slugify k)"
    by (rule resolve_key_eq)
next
  assume e: "e_key (read_entry i d) = []"
  then show "new_format d" by (rule empty_key_new_format)
  with e show "strip (py_str (py_or (dict_get d ''key'') (JStr ''''))) = []"
    by (simp add: read_entry_def)
next
  assume "\<not> new_format d'"
  then show "e_key (read_entry i d') =
          (let k' = strip (py_str (py_or (dict_get d' ''key'') (JStr '''')))
           in if k' = [] then slugify (e_label (read_entry i d')) else k')"
    by (rule legacy_key)
qed

theorem slugify_fallback_witness:
  "slugify ''?! -'' = ''question''
   \<and> resolve_key 3 [] = ''q3''
   \<and> e_key (read_entry 3 [(''key'', JStr '' ''), (''label'', JStr ''Age'')]) = []
   \<and> new_format [(''key'', JStr '' ''), (''label'', JStr ''Age'')]
   \<and> e_key (read_entry 3 [(''question'', JStr ''?'')]) = ''question''"
proof -
  have h1: "\<forall>c\<in>set ''?! -''. \<not> ascii_alnum c" by (simp add: ascii_alnum_def)
  have h2: "e_key (read_entry 3 [(''key'', JStr '' ''), (''label'', JStr ''Age'')]) = []"
    by code_simp
  have h3: "\<not> new_format [(''question'', JStr ''?'')]" by code_simp
  have h4: "str_nat 3 = ''3''" by code_simp
  have h5: "strip (py_str (py_or (dict_get [(''question'', JStr ''?'')] ''key'') (JStr ''''))) = []"
    by code_simp
  have h6: "e_label (read_entry 3 [(''question'', JStr ''?'')]) = ''?''" by code_simp
  have h7: "\<forall>c\<in>set ''?''. \<not> ascii_alnum c" by (simp add: ascii_alnum_def)
  note t = slugify_fallback[where s = "''?! -''" and i = 3 and k = "[]"
      and d = "[(''key'', JStr '' ''), (''label'', JStr ''Age'')]"
      and d' = "[(''question'', JStr ''?'')]"]
  note u = slugify_fallback[where s = "''?''" and i = 3 and k = "[]"
      and d = "[(''key'', JStr '' ''), (''label'', JStr ''Age'')]"
      and d' = "[(''question'', JStr ''?'')]"]
  from u h7 have h8: "slugify ''?'' = ''question''" by blast
  from t h1 h2 h3 h4 h5 h6 h8 show ?thesis by (simp add: Let_def)
qed

subsection \<open>Claims about normalize_questions\<close>

text \<open>
  Claim C1. For every input, the keys of the records \<open>normalize_questions\<close> returns
  are pairwise distinct and each is a non-empty string of characters of
  \<^verbatim>\<open>[a-z0-9_]\<close> that \<open>slugify\<close> leaves as it is. The record at output position \<open>j\<close> comes from a dict of the source
  list (at the position its id names); with \<open>base_key\<close> the slug resolved for it at
  lines 117-119 and \<open>earlier\<close> the keys of the records before it: when \<open>base_key\<close> is
  among the earlier keys, the emitted key is \<^verbatim>\<open>base_key_n\<close> for the first \<open>n\<close> from 2 on
  such that \<^verbatim>\<open>base_key_n\<close> is not among them; otherwise it is \<open>base_key\<close>.
\<close>

theorem keys_unique_slugs:
  "distinct (map q_key (normalize_questions raw))
   \<and> (\<forall>q\<in>set (normalize_questions raw). slug_key (q_key q) \<and> slugify (q_key q) = q_key q)
   \<and> (\<forall>j<length (normalize_questions raw).
        \<exists>d. source_list raw ! (q_id (normalize_questions raw ! j) - 1) = JDict d \<and>
         (let q = normalize_questions raw ! j;
              base_key = resolve_key (q_id q) (e_key (read_entry (q_id q) d));
              earlier = set (map q_key (take j (normalize_questions raw)))
          in if base_key \<in> earlier
             then \<exists>n\<ge>2. q_key q = suffixed base_key n \<and> suffixed base_key n \<notin> earlier
                    \<and> (\<forall>m. 2 \<le> m \<and> m < n \<longrightarrow> suffixed base_key m \<in> earlier)
             else q_key q = base_key))"
  using keys_distinct[of raw] keys_slug[of _ raw] slugify_fixed[OF keys_canonical[of _ raw]]
    keys_first_free[of _ raw] by blast

theorem keys_unique_slugs_witness:
  "map q_key (normalize_questions
      (JList [JDict [(''question'', JStr ''Q'')], JDict [(''question'', JStr ''q?'')],
              JDict [(''key'', JStr '' Q ''), (''label'', JStr ''Third'')]]))
     = [''q'', ''q_2'', ''q_3'']
   \<and> distinct (map q_key (normalize_questions
      (JList [JDict [(''question'', JStr ''Q'')], JDict [(''question'', JStr ''q?'')],
              JDict [(''key'', JStr '' Q ''), (''label'', JStr ''Third'')]])))
   \<and> slug_key ''q_3''"
proof -
  let ?raw = "JList [JDict [(''question'', JStr ''Q'')], JDict [(''question'', JStr ''q?'')],
              JDict [(''key'', JStr '' Q ''), (''label'', JStr ''Third'')]]"
  have k: "map q_key (normalize_questions ?raw) = [''q'', ''q_2'', ''q_3'']" by code_simp
  note t = keys_unique_slugs[of ?raw]
  from t have d: "distinct (map q_key (normalize_questions ?raw))" by (rule conjunct1)
  from t have "\<forall>q\<in>set (normalize_questions ?raw). slug_key (q_key q)" by blast
  then have "\<forall>s\<in>set (map q_key (normalize_questions ?raw)). slug_key s" by simp
  then have s: "slug_key ''q_3''" by (simp only: k) simp
  from k d s show ?thesis by (intro conjI)
qed

text \<open>
  Claim C2, as stated, fails: the ids of the output need not be 1, 2, 3, ... . For
  the list \<^verbatim>\<open>["x", {"question": "A"}]\<close> the only record has id 2, the position of
  its element in the source list.
\<close>

theorem ids_not_consecutive:
  "map q_id (normalize_questions (JList [JStr ''x'', JDict [(''question'', JStr ''A'')]])) = [2]
   \<and> map q_id (normalize_questions (JList [JStr ''x'', JDict [(''question'', JStr ''A'')]])) \<noteq> [1]"
proof -
  have "map q_id (normalize_questions (JList [JStr ''x'', JDict [(''question'', JStr ''A'')]])) = [2]"
    by code_simp
  then show ?thesis by simp
qed

text \<open>
  Claim C2, amended. The id of each record is the 1-based position of its element
  in the source list, counting the skipped elements (\<^verbatim>\<open>enumerate(raw, start=1)\<close>):
  the ids of the output are exactly the positions of the elements that are not
  skipped, in increasing order. They are 1, 2, 3, ... when no element is skipped.
\<close>

theorem ids_are_source_positions:
  "map q_id (normalize_questions raw) =
     filter (\<lambda>i. valid_entry (source_list raw ! (i - 1))) [1..<Suc (length (source_list raw))]
   \<and> sorted_wrt (<) (map q_id (normalize_questions raw))
   \<and> ((\<forall>q\<in>set (source_list raw). valid_entry q) \<longrightarrow>
        map q_id (normalize_questions raw) = [1..<Suc (length (source_list raw))])"
proof -
  from normalize_state obtain used where
    st: "norm_loop 1 (source_list raw) ([], []) = (normalize_questions raw, used)" by blast
  have 1: "map q_id (normalize_questions raw) =
     filter (\<lambda>i. valid_entry (source_list raw ! (i - 1))) [1..<Suc (length (source_list raw))]"
    by (rule ids_positions[OF st])
  have "sorted_wrt (<) [1..<Suc (length (source_list raw))]" by (rule sorted_wrt_upt)
  then have 2: "sorted_wrt (<) (map q_id (normalize_questions raw))"
    by (simp only: 1 sorted_wrt_filter)
  have 3: "map q_id (normalize_questions raw) = [1..<Suc (length (source_list raw))]"
    if "\<forall>q\<in>set (source_list raw). valid_entry q"
  proof -
    have "\<forall>i\<in>set [1..<Suc (length (source_list raw))]. valid_entry (source_list raw ! (i - 1))"
      using that by auto
    then show ?thesis by (simp only: 1 filter_True)
  qed
  from 1 2 3 show ?thesis by blast
qed

theorem ids_are_source_positions_witness:
  "map q_id (normalize_questions
      (JList [JDict [(''question'', JStr ''A'')], JInt 5, JDict [(''question'', JStr '' '')],
              JDict [(''question'', JStr ''B'')]])) = [1, 4]
   \<and> map q_id (normalize_questions
      (JList [JDict [(''question'', JStr ''A'')], JDict [(''question'', JStr ''B'')]])) = [1, 2]"
proof -
  let ?r1 = "JList [JDict [(''question'', JStr ''A'')], JInt 5, JDict [(''question'', JStr '' '')],
              JDict [(''question'', JStr ''B'')]]"
  let ?r2 = "JList [JDict [(''question'', JStr ''A'')], JDict [(''question'', JStr ''B'')]]"
  have f: "filter (\<lambda>i. valid_entry (source_list ?r1 ! (i - 1))) [1..<Suc (length (source_list ?r1))]
      = [1, 4]" by code_simp
  have v: "\<forall>q\<in>set (source_list ?r2). valid_entry q" by code_simp
  have l: "[1..<Suc (length (source_list ?r2))] = [1, 2]" by code_simp
  from ids_are_source_positions[of ?r1] f have a: "map q_id (normalize_questions ?r1) = [1, 4]"
    by simp
  from ids_are_source_positions[of ?r2, THEN conjunct2, THEN conjunct2, THEN mp, OF v] l
  have b: "map q_id (normalize_questions ?r2) = [1, 2]"
    by (simp only:)
  from a b show ?thesis by (intro conjI)
qed

text \<open>
  Claim C5. Every record of the output comes from a dict \<open>d\<close> of the source list.
  When \<open>d\<close> is in the old format (it does not have both \<^verbatim>\<open>key\<close> and one of
  \<^verbatim>\<open>label\<close>, \<^verbatim>\<open>question\<close>), the type of the record is \<^verbatim>\<open>choice\<close> when the
  \<^verbatim>\<open>options\<close> field of \<open>d\<close> is a list with at least one element and
  \<^verbatim>\<open>text\<close> otherwise, and the record is required when \<open>d\<close> has no
  \<^verbatim>\<open>required\<close> field. When \<open>d\<close> is in the new format and has no \<^verbatim>\<open>required\<close>
  field, the record is not required.
\<close>

theorem legacy_inference:
  assumes "q \<in> set (normalize_questions raw)"
  shows "\<exists>d. source_list raw ! (q_id q - 1) = JDict d
     \<and> (\<not> new_format d \<longrightarrow>
          q_type q = (if nonempty_list (dict_get d ''options'') then ''choice'' else ''text'')
          \<and> (\<not> has_key d ''required'' \<longrightarrow> q_required q))
     \<and> (new_format d \<longrightarrow> \<not> has_key d ''required'' \<longrightarrow> \<not> q_required q)"
proof -
  from assms obtain j where j: "j < length (normalize_questions raw)" "normalize_questions raw ! j = q"
    by (auto simp: in_set_conv_nth)
  from normalize_state obtain used where
    st: "norm_loop 1 (source_list raw) ([], []) = (normalize_questions raw, used)" by blast
  from records_emitted[OF st j(1)] j(2) obtain d u where
    d: "source_list raw ! (q_id q - 1) = JDict d" and e: "q = emit (q_id q) d u" by auto
  from e have t: "q_type q = e_qtype (read_entry (q_id q) d)"
    and r: "q_required q = e_required (read_entry (q_id q) d)"
    by (metis emit_def question.select_convs(5), metis emit_def question.select_convs(6))
  from d t r show ?thesis
    by (intro exI[of _ d]) (simp add: legacy_type legacy_required new_required)
qed

theorem legacy_inference_witness:
  "q_type (hd (normalize_questions
      (JList [JDict [(''question'', JStr ''Colour''), (''options'', JList [JStr ''red''])],
              JDict [(''question'', JStr ''Age?''), (''options'', JList [])],
              JDict [(''key'', JStr ''k''), (''label'', JStr ''L'')]]))) = ''choice''
   \<and> q_required (hd (normalize_questions
      (JList [JDict [(''question'', JStr ''Colour''), (''options'', JList [JStr ''red''])],
              JDict [(''question'', JStr ''Age?''), (''options'', JList [])],
              JDict [(''key'', JStr ''k''), (''label'', JStr ''L'')]])))
   \<and> map q_type (normalize_questions
      (JList [JDict [(''question'', JStr ''Colour''), (''options'', JList [JStr ''red''])],
              JDict [(''question'', JStr ''Age?''), (''options'', JList [])],
              JDict [(''key'', JStr ''k''), (''label'', JStr ''L'')]])) = [''choice'', ''text'', ''text'']
   \<and> map q_required (normalize_questions
      (JList [JDict [(''question'', JStr ''Colour''), (''options'', JList [JStr ''red''])],
              JDict [(''question'', JStr ''Age?''), (''options'', JList [])],
              JDict [(''key'', JStr ''k''), (''label'', JStr ''L'')]])) = [True, True, False]"
proof -
  let ?d = "[(''question'', JStr ''Colour''), (''options'', JList [JStr ''red''])]"
  let ?raw = "JList [JDict ?d,
              JDict [(''question'', JStr ''Age?''), (''options'', JList [])],
              JDict [(''key'', JStr ''k''), (''label'', JStr ''L'')]]"
  let ?q = "hd (normalize_questions ?raw)"
  have m: "?q \<in> set (normalize_questions ?raw)" by code_simp
  have i: "source_list ?raw ! (q_id ?q - 1) = JDict ?d" by code_simp
  have l: "\<not> new_format ?d" by code_simp
  have n: "nonempty_list (dict_get ?d ''options'')" by code_simp
  have r: "\<not> has_key ?d ''required''" by code_simp
  from legacy_inference[OF m] obtain d where
    d: "source_list ?raw ! (q_id ?q - 1) = JDict d"
    and t: "\<not> new_format d \<longrightarrow>
          q_type ?q = (if nonempty_list (dict_get d ''options'') then ''choice'' else ''text'')
          \<and> (\<not> has_key d ''required'' \<longrightarrow> q_required ?q)"
    by blast
  from d i have "d = ?d" by simp
  with t l n r have a: "q_type ?q = ''choice''" and b: "q_required ?q" by simp_all
  have c: "map q_type (normalize_questions ?raw) = [''choice'', ''text'', ''text'']" by code_simp
  have e: "map q_required (normalize_questions ?raw) = [True, True, False]" by code_simp
  from a b c e show ?thesis by (intro conjI)
qed

subsection \<open>Claims about the request handlers\<close>

text \<open>
  Claim C3. For every submission (a POST to a questionnaire that loads with at least
  one question): if the validation pass records at least one error, the handler
  leaves the result logs unchanged (\<open>save_answers\<close> is not reached), renders the form
  again and flashes every collected message, in order, with category error; if it
  records none, the accepted answers have exactly the question keys as their domain
  and the handler appends one row to the log of the questionnaire (after the header
  when the log is new), whose columns after the four of the submitter are the
  accepted answers in question order.
\<close>

theorem submission_persistence:
  assumes "load_questions defs qid = Inr (Some questions)" and "questions \<noteq> []"
  shows "(snd (validate float_ok date_ok frm questions) \<noteq> [] \<longrightarrow>
            questionnaire float_ok date_ok defs today cu POST frm res qid =
              Inr (Render ''quiz.html'' questions qid,
                   map (\<lambda>msg. (msg, ''error'')) (snd (validate float_ok date_ok frm questions)),
                   res))
       \<and> (snd (validate float_ok date_ok frm' questions) = [] \<longrightarrow>
            dom (fst (validate float_ok date_ok frm' questions)) = set (map q_key questions)
          \<and> (\<exists>line. questionnaire float_ok date_ok defs today cu POST frm' res qid =
                Inr (Redirect ''views.quiz'', [(msg_thanks, ''success'')],
                  res(qid \<mapsto> (case res qid of
                       None \<Rightarrow> [[''date'', ''user_id'', ''user_name'', ''user_email'']
                                 @ map q_key questions]
                     | Some rows \<Rightarrow> rows) @ [line]))
              \<and> length line = 4 + length questions
              \<and> drop 4 line =
                  map (\<lambda>q. the (fst (validate float_ok date_ok frm' questions) (q_key q))) questions))"
proof (intro conjI impI)
  assume "snd (validate float_ok date_ok frm questions) \<noteq> []"
  with assms show "questionnaire float_ok date_ok defs today cu POST frm res qid =
              Inr (Render ''quiz.html'' questions qid,
                   map (\<lambda>msg. (msg, ''error'')) (snd (validate float_ok date_ok frm questions)),
                   res)"
    by (cases "validate float_ok date_ok frm questions") (simp add: questionnaire_def)
next
  assume ok: "snd (validate float_ok date_ok frm' questions) = []"
  then show dm: "dom (fst (validate float_ok date_ok frm' questions)) = set (map q_key questions)"
    by (rule validate_no_error_dom)
  let ?a = "fst (validate float_ok date_ok frm' questions)"
  from save_answers_eq[of today cu res qid questions ?a]
  obtain line where s: "save_answers today cu res qid questions ?a =
      res(qid \<mapsto> (case res qid of
                     None \<Rightarrow> [[''date'', ''user_id'', ''user_name'', ''user_email''] @ map q_key questions]
                   | Some rows \<Rightarrow> rows) @ [line])"
    and l: "length line = 4 + length questions"
    and d: "drop 4 line = map (\<lambda>q. case ?a (q_key q) of None \<Rightarrow> '''' | Some v \<Rightarrow> v) questions"
    by blast
  have "\<forall>q\<in>set questions. ?a (q_key q) \<noteq> None" using dm by auto
  then have "map (\<lambda>q. case ?a (q_key q) of None \<Rightarrow> '''' | Some v \<Rightarrow> v) questions
       = map (\<lambda>q. the (?a (q_key q))) questions" by auto
  with d have d': "drop 4 line = map (\<lambda>q. the (?a (q_key q))) questions" by simp
  from assms ok have "questionnaire float_ok date_ok defs today cu POST frm' res qid =
     Inr (Redirect ''views.quiz'', [(msg_thanks, ''success'')],
      save_answers today cu res qid questions ?a)"
    by (cases "validate float_ok date_ok frm' questions") (simp add: questionnaire_def)
  with s l d' show "\<exists>line. questionnaire float_ok date_ok defs today cu POST frm' res qid =
                Inr (Redirect ''views.quiz'', [(msg_thanks, ''success'')],
                  res(qid \<mapsto> (case res qid of
                       None \<Rightarrow> [[''date'', ''user_id'', ''user_name'', ''user_email'']
                                 @ map q_key questions]
                     | Some rows \<Rightarrow> rows) @ [line]))
              \<and> length line = 4 + length questions
              \<and> drop 4 line =
                  map (\<lambda>q. the (fst (validate float_ok date_ok frm' questions) (q_key q))) questions"
    by auto
qed

theorem submission_persistence_witness:
  "questionnaire py_float_ok py_date_ok
      (\<lambda>_. Loaded (JList [JDict [(''key'', JStr ''age''), (''label'', JStr ''Age?''),
                                 (''type'', JStr ''number''), (''required'', JBool True)]]))
      ''04/11/2026'' \<lparr> user_id = 7, first_name = ''Ada'', email = ''ada@example.org'' \<rparr>
      POST (\<lambda>_. []) Map.empty ''quiz1''
    = Inr (Render ''quiz.html''
         [\<lparr> q_id = 1, q_key = ''age'', q_label = ''Age?'', q_description = [],
            q_type = ''number'', q_required = True, q_options = None \<rparr>] ''quiz1'',
       [(msg_required ''Age?'', ''error'')], Map.empty)
   \<and> dom (fst (validate py_float_ok py_date_ok (\<lambda>k. if k = ''age'' then [''12,5''] else [])
         [\<lparr> q_id = 1, q_key = ''age'', q_label = ''Age?'', q_description = [],
            q_type = ''number'', q_required = True, q_options = None \<rparr>])) = {''age''}
   \<and> (\<exists>log. questionnaire py_float_ok py_date_ok
      (\<lambda>_. Loaded (JList [JDict [(''key'', JStr ''age''), (''label'', JStr ''Age?''),
                                 (''type'', JStr ''number''), (''required'', JBool True)]]))
      ''04/11/2026'' \<lparr> user_id = 7, first_name = ''Ada'', email = ''ada@example.org'' \<rparr>
      POST (\<lambda>k. if k = ''age'' then [''12,5''] else []) Map.empty ''quiz1''
    = Inr (Redirect ''views.quiz'', [(msg_thanks, ''success'')], log))"
proof -
  let ?defs = "\<lambda>_::string. Loaded (JList [JDict [(''key'', JStr ''age''), (''label'', JStr ''Age?''),
                                 (''type'', JStr ''number''), (''required'', JBool True)]])"
  let ?qs = "[\<lparr> q_id = 1, q_key = ''age'', q_label = ''Age?'', q_description = [],
            q_type = ''number'', q_required = True, q_options = None \<rparr>]"
  let ?bad = "\<lambda>_::string. [] :: string list"
  let ?good = "\<lambda>k. if k = ''age'' then [''12,5''] else []"
  have h1: "load_questions ?defs ''quiz1'' = Inr (Some ?qs)" by code_simp
  have h2: "?qs \<noteq> []" by simp
  have h3: "snd (validate py_float_ok py_date_ok ?bad ?qs) = [msg_required ''Age?'']" by code_simp
  have h4: "snd (validate py_float_ok py_date_ok ?good ?qs) = []" by code_simp
  note t = submission_persistence[OF h1 h2, where float_ok = py_float_ok and date_ok = py_date_ok
      and frm = ?bad and frm' = ?good and today = "''04/11/2026''"
      and cu = "\<lparr> user_id = 7, first_name = ''Ada'', email = ''ada@example.org'' \<rparr>"
      and res = Map.empty]
  from t[THEN conjunct1] h3 have c1: "questionnaire py_float_ok py_date_ok ?defs ''04/11/2026''
      \<lparr> user_id = 7, first_name = ''Ada'', email = ''ada@example.org'' \<rparr> POST ?bad Map.empty ''quiz1''
    = Inr (Render ''quiz.html'' ?qs ''quiz1'', [(msg_required ''Age?'', ''error'')], Map.empty)"
    by simp
  from t[THEN conjunct2] h4 have c2: "dom (fst (validate py_float_ok py_date_ok ?good ?qs)) = {''age''}"
    by simp
  from t[THEN conjunct2, rule_format, OF h4, THEN conjunct2]
  have c3: "\<exists>log. questionnaire py_float_ok py_date_ok ?defs ''04/11/2026''
      \<lparr> user_id = 7, first_name = ''Ada'', email = ''ada@example.org'' \<rparr> POST ?good Map.empty ''quiz1''
      = Inr (Redirect ''views.quiz'', [(msg_thanks, ''success'')], log)"
    by (elim exE conjE) (rule exI, assumption)
  from c1 c2 c3 show ?thesis by (intro conjI)
qed

text \<open>
  What \<open>load_questions\<close> and its two callers do on the outcomes the function
  handles: the result is \<^verbatim>\<open>None\<close> exactly on FileNotFoundError and the empty list
  on JSONDecodeError, and \<open>questionnaire\<close> flashes two different messages for them.
\<close>

lemma load_questions_caught:
  "(load_questions defs qid = Inr None \<longleftrightarrow> defs (qid @ ''.json'') = FileNotFound)
   \<and> (defs (qid @ ''.json'') = DecodeError \<longrightarrow> load_questions defs qid = Inr (Some []))
   \<and> (defs (qid @ ''.json'') = Raises e \<longrightarrow> load_questions defs qid = Inl e)"
  by (cases "defs (qid @ ''.json'')") (simp_all add: load_questions_def)

lemma questionnaire_reports:
  "(defs (qid @ ''.json'') = FileNotFound \<longrightarrow>
      questionnaire float_ok date_ok defs today cu meth frm res qid =
        Inr (Redirect ''views.quiz'', [(msg_not_found qid, ''error'')], res))
   \<and> (defs (qid @ ''.json'') = DecodeError \<longrightarrow>
      questionnaire float_ok date_ok defs today cu meth frm res qid =
        Inr (Redirect ''views.quiz'', [(msg_unreadable, ''error'')], res))
   \<and> (defs (qid @ ''.json'') = Raises e \<longrightarrow>
      questionnaire float_ok date_ok defs today cu meth frm res qid = Inl e)
   \<and> msg_not_found qid \<noteq> msg_unreadable"
  by (simp add: questionnaire_def load_questions_def msg_differ)

text \<open>
  Claim C4. The claim holds of the two outcomes \<open>load_questions\<close> catches, and the
  code departs from it in two places. First, an existing file whose content is not
  parseable JSON does not always give the empty list: when its bytes are not valid
  UTF-8, \<^verbatim>\<open>json.load\<close> raises UnicodeDecodeError, which neither \<^verbatim>\<open>except\<close> clause
  catches, so \<open>load_questions\<close> returns nothing and the exception leaves
  \<open>questionnaire\<close> and, after the file has been saved, \<open>admin_upload_questionnaire\<close>.
  Second, the two outcomes are conflated by \<open>admin_upload_questionnaire\<close>, whose
  test \<^verbatim>\<open>if not test\<close> takes \<^verbatim>\<open>None\<close> and \<^verbatim>\<open>[]\<close> alike: the upload of a well-formed
  questionnaire under the name \<^verbatim>\<open>Quiz.JSON\<close>, which \<open>allowed_file\<close> accepts, is saved
  under that name while \<open>load_questions\<close> looks for \<^verbatim>\<open>Quiz.json\<close>, finds no file and
  returns \<^verbatim>\<open>None\<close>; the handler then flashes that the JSON is not recognised, the
  very messages it flashes for an unparseable upload. File names are compared
  exactly, as on a case-sensitive file system, and \<^verbatim>\<open>secure_filename\<close> leaves the
  names used here as they are. The last conjunct is the upload the handler reports
  as a success.
\<close>

theorem load_questions_uncaught_and_conflated:
  "load_questions (\<lambda>_. Raises UnicodeDecodeError) qid = Inl UnicodeDecodeError
   \<and> questionnaire float_ok date_ok (\<lambda>_. Raises UnicodeDecodeError) today cu meth frm res qid
       = Inl UnicodeDecodeError
   \<and> snd (admin_upload_questionnaire (\<lambda>name. name) py_splitext_root True POST
            (Some (''quiz.json'', Raises UnicodeDecodeError)) (\<lambda>_. FileNotFound))
       = Inl UnicodeDecodeError
   \<and> allowed_file ''Quiz.JSON''
   \<and> load_questions
        ((\<lambda>_. FileNotFound)
           (''Quiz.JSON'' := Loaded (JList [JDict [(''question'', JStr ''Age?'')]])))
        (py_splitext_root ''Quiz.JSON'') = Inr None
   \<and> snd (admin_upload_questionnaire (\<lambda>name. name) py_splitext_root True POST
            (Some (''Quiz.JSON'', Loaded (JList [JDict [(''question'', JStr ''Age?'')]])))
            (\<lambda>_. FileNotFound))
       = Inr (Redirect ''views.admin_questionnaires'',
              [(msg_not_recognised, ''error''), (msg_imported ''Quiz.JSON'', ''success'')])
   \<and> snd (admin_upload_questionnaire (\<lambda>name. name) py_splitext_root True POST
            (Some (''bad.json'', DecodeError)) (\<lambda>_. FileNotFound))
       = Inr (Redirect ''views.admin_questionnaires'',
              [(msg_not_recognised, ''error''), (msg_imported ''bad.json'', ''success'')])
   \<and> snd (admin_upload_questionnaire (\<lambda>name. name) py_splitext_root True POST
            (Some (''quiz.json'', Loaded (JList [JDict [(''question'', JStr ''Age?'')]])))
            (\<lambda>_. FileNotFound))
       = Inr (Redirect ''views.admin_questionnaires'', [(msg_imported ''quiz.json'', ''success'')])"
proof -
  have 1: "load_questions (\<lambda>_. Raises UnicodeDecodeError) qid = Inl UnicodeDecodeError"
    by (simp add: load_questions_def)
  then have 2: "questionnaire float_ok date_ok (\<lambda>_. Raises UnicodeDecodeError) today cu meth frm res qid
       = Inl UnicodeDecodeError"
    by (simp add: questionnaire_def)
  have 3: "snd (admin_upload_questionnaire (\<lambda>name. name) py_splitext_root True POST
            (Some (''quiz.json'', Raises UnicodeDecodeError)) (\<lambda>_. FileNotFound))
       = Inl UnicodeDecodeError"
    by code_simp
  have 4: "allowed_file ''Quiz.JSON''" by code_simp
  have 5: "load_questions
        ((\<lambda>_. FileNotFound)
           (''Quiz.JSON'' := Loaded (JList [JDict [(''question'', JStr ''Age?'')]])))
        (py_splitext_root ''Quiz.JSON'') = Inr None"
    by code_simp
  have 6: "snd (admin_upload_questionnaire (\<lambda>name. name) py_splitext_root True POST
            (Some (''Quiz.JSON'', Loaded (JList [JDict [(''question'', JStr ''Age?'')]])))
            (\<lambda>_. FileNotFound))
       = Inr (Redirect ''views.admin_questionnaires'',
              [(msg_not_recognised, ''error''), (msg_imported ''Quiz.JSON'', ''success'')])"
    by code_simp
  have 7: "snd (admin_upload_questionnaire (\<lambda>name. name) py_splitext_root True POST
            (Some (''bad.json'', DecodeError)) (\<lambda>_. FileNotFound))
       = Inr (Redirect ''views.admin_questionnaires'',
              [(msg_not_recognised, ''error''), (msg_imported ''bad.json'', ''success'')])"
    by code_simp
  have 8: "snd (admin_upload_questionnaire (\<lambda>name. name) py_splitext_root True POST
            (Some (''quiz.json'', Loaded (JList [JDict [(''question'', JStr ''Age?'')]])))
            (\<lambda>_. FileNotFound))
       = Inr (Redirect ''views.admin_questionnaires'', [(msg_imported ''quiz.json'', ''success'')])"
    by code_simp
  from 1 2 3 4 5 6 7 8 show ?thesis by (intro conjI)
qed

subsection \<open>Claims about the validation pass\<close>





text \<open>
  Claim C6. The selections \<^verbatim>\<open>["A", "B"]\<close> of a multi question with the options
  \<^verbatim>\<open>["A", "B"]\<close> validate and are stored as \<^verbatim>\<open>"A | B"\<close>. But the check splits the
  joined string on \<^verbatim>\<open>|\<close> again, so a selected option that contains that character
  is cut into parts that are not options: with the options \<^verbatim>\<open>["C|C++", "Go"]\<close> the
  selection \<^verbatim>\<open>["C|C++"]\<close>, a trimmed member of the options, is rejected with the
  message for invalid answers and nothing is stored.
\<close>

theorem multi_delimiter_in_option:
  "validate_step py_float_ok py_date_ok (\<lambda>k. if k = ''langs[]'' then [''A'', ''B''] else [])
      \<lparr> q_id = 1, q_key = ''langs'', q_label = ''Langs'', q_description = [],
         q_type = ''multi'', q_required = True, q_options = Some [''A'', ''B''] \<rparr> (answers, errors)
     = (answers(''langs'' \<mapsto> ''A | B''), errors)
   \<and> validate_step py_float_ok py_date_ok (\<lambda>k. if k = ''langs[]'' then [''C|C++''] else [])
      \<lparr> q_id = 1, q_key = ''langs'', q_label = ''Langs'', q_description = [],
         q_type = ''multi'', q_required = True, q_options = Some [''C|C++'', ''Go''] \<rparr> (answers, errors)
     = (answers, errors @ [msg_multi ''Langs''])"
proof -
  let ?q1 = "\<lparr> q_id = 1, q_key = ''langs'', q_label = ''Langs'', q_description = [],
         q_type = ''multi'', q_required = True, q_options = Some [''A'', ''B''] \<rparr>"
  let ?q2 = "\<lparr> q_id = 1, q_key = ''langs'', q_label = ''Langs'', q_description = [],
         q_type = ''multi'', q_required = True, q_options = Some [''C|C++'', ''Go''] \<rparr>"
  let ?f1 = "\<lambda>k. if k = ''langs[]'' then [''A'', ''B''] else []"
  let ?f2 = "\<lambda>k. if k = ''langs[]'' then [''C|C++''] else []"
  have a: "question_error py_float_ok py_date_ok ?f1 ?q1 = None" by code_simp
  have v: "submitted_value ?q1 ?f1 = ''A | B''" by code_simp
  have b: "question_error py_float_ok py_date_ok ?f2 ?q2 = Some (msg_multi ''Langs'')" by code_simp
  from a v b show ?thesis by (simp add: validate_step_eq)
qed

end
